theory Spec2Isabelle
  imports Complex_Main "HOL-Library.Word"
begin

unbundle bit_operations_syntax

section \<open>The S3 back-end (S3Store.py)\<close>

subsection \<open>Data\<close>

type_synonym bytes = "8 word list"

text \<open>
  Exceptions are values. \<open>AttributeError\<close> is what \<open>pattern.match(...).groupdict()\<close>
  raises when the match is \<open>None\<close>; \<open>TypeError\<close> and \<open>KeyError\<close> come from iterating
  \<open>None\<close> and from a missing dictionary key. \<open>StructError\<close> is \<open>struct.error\<close>.
  \<open>Raised n\<close> stands for any exception number \<open>n\<close> raised by a collaborator (boto,
  the source stream, the sending store).
\<close>

datatype error =
  AttributeError | TypeError | KeyError | IndexError | ValueError
| StructError | UnicodeDecodeError | UnicodeEncodeError
| Raised nat

text \<open>A boto key as the listing returns it: its name and its size in bytes.\<close>

record key =
  key_name :: string
  key_size :: int

text \<open>
  One entry of \<open>self.diffs\<close>, the dictionary with the keys \<open>from\<close>, \<open>to\<close>, \<open>size\<close> and
  \<open>path\<close>. \<open>from\<close> is \<open>None\<close> for a full snapshot. The module imports \<open>division\<close> from
  \<open>__future__\<close>, so \<open>size\<close> is the result of a true division: a fraction, not an integer.
\<close>

record diff =
  diff_from :: "string option"
  diff_to :: string
  diff_size :: rat
  diff_path :: string

text \<open>One value of \<open>self.vols\<close>: the dictionary with the keys \<open>uuid\<close> and \<open>path\<close>.\<close>

record volume =
  uuid :: string
  path :: string

text \<open>What \<open>iterEdges\<close> yields: the dictionary with the keys \<open>to\<close> and \<open>size\<close>.\<close>

record edge =
  edge_to :: string
  edge_size :: rat

text \<open>
  The fields of an \<open>S3Store\<close> that the methods below read and write. \<open>diffs\<close> and
  \<open>vols\<close> are \<open>None\<close> until the first listing.
\<close>

record store =
  bucketName :: string
  prefix :: string
  diffs :: "diff list option"
  vols :: "(string \<rightharpoonup> volume) option"

subsection \<open>The listing pattern\<close>

text \<open>
  \<open>_listBucket\<close> compiles \<open>"^%s(?P<to>[^/]*)/(?P<from>.*)$" % prefix\<close> and matches it
  against each key name. The prefix is interpolated unescaped; \<open>regex_literal\<close> holds
  of the prefixes that are free of metacharacters of regular expressions and therefore
  match themselves, and \<open>pattern_match\<close> gives the two groups of the match for such a
  prefix:
  \<^item> the name must start with the prefix;
  \<^item> \<open>[^/]*\<close> followed by \<open>/\<close> takes everything before the first slash that follows
    (a negated class also matches a newline);
  \<^item> \<open>.*\<close> followed by \<open>$\<close> takes the rest, which must be free of newlines, except
    that \<open>$\<close> also matches just before a newline that ends the name.
\<close>

definition regex_literal :: "string \<Rightarrow> bool" where
  "regex_literal p = (set p \<inter> (set ''.^$*+?{}[]|()'' \<union> {CHR 0x5C}) = {})"

definition match_from :: "string \<Rightarrow> string option" where
  "match_from r =
     (if CHR 0x0A \<notin> set r then Some r
      else if r \<noteq> [] \<and> last r = CHR 0x0A \<and> CHR 0x0A \<notin> set (butlast r)
           then Some (butlast r)
      else None)"

definition pattern_match :: "string \<Rightarrow> string \<Rightarrow> (string \<times> string) option" where
  "pattern_match p n =
     (if take (length p) n \<noteq> p then None
      else let r = drop (length p) n;
               t = takeWhile (\<lambda>c. c \<noteq> CHR ''/'') r;
               a = dropWhile (\<lambda>c. c \<noteq> CHR ''/'') r
           in case a of
                [] \<Rightarrow> None
              | _ # f \<Rightarrow> (case match_from f of None \<Rightarrow> None | Some f' \<Rightarrow> Some (t, f')))"

subsection \<open>Listing the bucket\<close>

text \<open>
  \<open>bucket.list(prefix=...)\<close> is an iterator over the network: each step yields a key or
  raises. The listing is the list of these outcomes, and the loop stops at the first
  exception. \<open>listLoop\<close> is the body of the \<open>for\<close> loop of \<open>_listBucket\<close>, appending to
  \<open>self.diffs\<close>; it returns the list as it stands when the loop is left, and the
  exception that left it, if any. \<open>parseKey\<close> is one turn of the loop up to the
  \<open>append\<close>: the match, the word \<open>None\<close> turned into \<open>None\<close>, and the dictionary
  built from the groups and from \<open>key.size / (2**20)\<close>. That quotient is a
  floating-point number in the source and the exact fraction here; the two are equal for
  every size below \<open>2 ^ 53\<close>.
\<close>

definition parseKey :: "string \<Rightarrow> key \<Rightarrow> error + diff" where
  "parseKey p k =
     (case pattern_match p (key_name k) of
        None \<Rightarrow> Inl AttributeError
      | Some (t, f) \<Rightarrow>
          Inr \<lparr>diff_from = (if f = ''None'' then None else Some f),
               diff_to = t,
               diff_size = of_int (key_size k) / 2 ^ 20,
               diff_path = t\<rparr>)"

fun listLoop :: "string \<Rightarrow> (error + key) list \<Rightarrow> diff list \<Rightarrow> diff list \<times> error option" where
  "listLoop p [] ds = (ds, None)"
| "listLoop p (Inl e # ks) ds = (ds, Some e)"
| "listLoop p (Inr k # ks) ds =
     (case parseKey p k of
        Inl e \<Rightarrow> (ds, Some e)
      | Inr d \<Rightarrow> listLoop p ks (ds @ [d]))"

text \<open>The dictionary comprehension that builds \<open>self.vols\<close> from \<open>self.diffs\<close>.\<close>

definition volsOf :: "diff list \<Rightarrow> (string \<rightharpoonup> volume)" where
  "volsOf ds = fold (\<lambda>d m. m(diff_to d \<mapsto> \<lparr>uuid = diff_to d, path = diff_to d\<rparr>)) ds Map.empty"

text \<open>
  \<open>_listBucket\<close>: the pattern is compiled, \<open>self.diffs\<close> is set to the empty list and
  filled in place by the loop; \<open>self.vols\<close> is assigned after the loop, so only when no
  exception left it. The result is the store afterwards and the exception raised, if
  any. For a prefix of which \<open>regex_literal\<close> holds the pattern is well formed, so that
  \<open>re.compile\<close> returns, and it matches as \<open>pattern_match\<close> says; the statements below
  that depend on what the pattern matches, or on the listing getting as far as the loop,
  assume such a prefix. \<open>__init__\<close> calls \<open>_listBucket\<close> once, on a store whose \<open>diffs\<close>
  and \<open>vols\<close> are both \<open>None\<close>.
\<close>

definition listBucket :: "store \<Rightarrow> (error + key) list \<Rightarrow> store \<times> error option" where
  "listBucket s ks =
     (case listLoop (prefix s) ks [] of
        (ds, Some e) \<Rightarrow> (s\<lparr>diffs := Some ds\<rparr>, Some e)
      | (ds, None) \<Rightarrow> (s\<lparr>diffs := Some ds, vols := Some (volsOf ds)\<rparr>, None))"

subsection \<open>Graph queries\<close>

text \<open>
  \<open>listVolumes\<close> returns the values of the dictionary (in no particular order: a set);
  \<open>getVolume\<close> indexes it. Both raise on a store that was never listed.
\<close>

definition listVolumes :: "store \<Rightarrow> error + volume set" where
  "listVolumes s = (case vols s of None \<Rightarrow> Inl AttributeError | Some m \<Rightarrow> Inr (ran m))"

definition getVolume :: "store \<Rightarrow> string \<Rightarrow> error + volume" where
  "getVolume s u =
     (case vols s of
        None \<Rightarrow> Inl TypeError
      | Some m \<Rightarrow> (case m u of None \<Rightarrow> Inl KeyError | Some v \<Rightarrow> Inr v))"

text \<open>\<open>iterEdges\<close>: the generator, as the list of what it yields, in order.\<close>

fun iterEdgesLoop :: "diff list \<Rightarrow> string option \<Rightarrow> edge list" where
  "iterEdgesLoop [] fromVol = []"
| "iterEdgesLoop (d # ds) fromVol =
     (if diff_from d = fromVol
      then \<lparr>edge_to = diff_to d, edge_size = diff_size d\<rparr> # iterEdgesLoop ds fromVol
      else iterEdgesLoop ds fromVol)"

definition iterEdges :: "store \<Rightarrow> string option \<Rightarrow> error + edge list" where
  "iterEdges s fromVol =
     (case diffs s of
        None \<Rightarrow> Inl TypeError
      | Some ds \<Rightarrow> Inr (iterEdgesLoop ds fromVol))"

fun hasEdgeLoop :: "diff list \<Rightarrow> string \<Rightarrow> string option \<Rightarrow> bool" where
  "hasEdgeLoop [] toUUID fromUUID = False"
| "hasEdgeLoop (d # ds) toUUID fromUUID =
     (if diff_from d = fromUUID \<and> diff_to d = toUUID then True
      else hasEdgeLoop ds toUUID fromUUID)"

definition hasEdge :: "store \<Rightarrow> string \<Rightarrow> string option \<Rightarrow> error + bool" where
  "hasEdge s toUUID fromUUID =
     (case diffs s of
        None \<Rightarrow> Inl TypeError
      | Some ds \<Rightarrow> Inr (hasEdgeLoop ds toUUID fromUUID))"

subsection \<open>The multipart upload\<close>

text \<open>
  The calls that leave the process, in the order they are made: \<open>diffSink.send\<close>,
  \<open>stream.read\<close>, \<open>initiate_multipart_upload\<close> with the key name,
  \<open>upload_part_from_file\<close> with the part number and the data, \<open>complete_upload\<close>
  and \<open>cancel_upload\<close>. An event is logged when the call is made, whether it then
  returns or raises.
\<close>

datatype event =
  Send
| Read
| Initiate string
| UploadPart int bytes
| Complete
| Cancel

text \<open>
  The remote side: for each call of the multipart protocol, the exception it raises, or
  \<open>None\<close> when it returns. An upload of a part may depend on its number and data.
\<close>

record s3 =
  initiate_result :: "error option"
  upload_result :: "int \<Rightarrow> bytes \<Rightarrow> error option"
  complete_result :: "error option"
  cancel_result :: "error option"

text \<open>
  A source stream is the list of what its successive \<open>read(theChunkSize)\<close> calls do:
  return data (\<open>Inr\<close>) or raise (\<open>Inl\<close>). Past the end of the list a read returns the
  empty string, as a stream does at its end.
\<close>

type_synonym stream = "(error + bytes) list"

text \<open>
  The fields of an \<open>_Uploader\<close>: \<open>uploader\<close> is \<open>True\<close> while it holds the handle that
  \<open>initiate_multipart_upload\<close> returned and \<open>False\<close> while it is \<open>None\<close>.
\<close>

record Uploader =
  keyName :: string
  uploader :: bool
  chunkCount :: "int option"

definition Uploader_init :: "string \<Rightarrow> Uploader" where
  "Uploader_init k = \<lparr>keyName = k, uploader = False, chunkCount = None\<rparr>"

text \<open>
  Each method takes the remote side, the object and the log so far, and returns the
  object and the log afterwards and the exception it raised, if any.
\<close>

definition Uploader_enter :: "s3 \<Rightarrow> Uploader \<Rightarrow> event list \<Rightarrow> Uploader \<times> event list \<times> error option" where
  "Uploader_enter env u tr =
     (case initiate_result env of
        Some e \<Rightarrow> (u, tr @ [Initiate (keyName u)], Some e)
      | None \<Rightarrow> (u\<lparr>uploader := True, chunkCount := Some 0\<rparr>, tr @ [Initiate (keyName u)], None))"

text \<open>
  \<open>__exit__\<close> receives the exception that left the body of the \<open>with\<close> statement, if
  any. It returns \<open>False\<close>, so that exception is raised again once it returns; an
  exception raised by \<open>complete_upload\<close> or \<open>cancel_upload\<close> leaves \<open>__exit__\<close> before
  \<open>self.uploader\<close> is reset, and is the one the caller sees.
\<close>

definition Uploader_exit :: "s3 \<Rightarrow> Uploader \<Rightarrow> event list \<Rightarrow> error option \<Rightarrow> Uploader \<times> event list \<times> error option" where
  "Uploader_exit env u tr exc =
     (if \<not> uploader u then (u, tr, Some AttributeError)
      else case exc of
        None \<Rightarrow>
          (case complete_result env of
             Some e \<Rightarrow> (u, tr @ [Complete], Some e)
           | None \<Rightarrow> (u\<lparr>uploader := False\<rparr>, tr @ [Complete], None))
      | Some x \<Rightarrow>
          (case cancel_result env of
             Some e \<Rightarrow> (u, tr @ [Cancel], Some e)
           | None \<Rightarrow> (u\<lparr>uploader := False\<rparr>, tr @ [Cancel], Some x)))"

definition Uploader_upload :: "s3 \<Rightarrow> Uploader \<Rightarrow> event list \<Rightarrow> bytes \<Rightarrow> Uploader \<times> event list \<times> error option" where
  "Uploader_upload env u tr data =
     (case chunkCount u of
        None \<Rightarrow> (u, tr, Some TypeError)
      | Some c \<Rightarrow>
          let u' = u\<lparr>chunkCount := Some (c + 1)\<rparr>
          in if \<not> uploader u' then (u', tr, Some AttributeError)
             else (u', tr @ [UploadPart (c + 1) data], upload_result env (c + 1) data))"

text \<open>
  The \<open>while True\<close> loop of \<open>_upload\<close>: read, leave the loop on empty data, upload.
  The recursion is on the stream, which each read consumes.
\<close>

fun uploadLoop :: "s3 \<Rightarrow> stream \<Rightarrow> Uploader \<Rightarrow> event list \<Rightarrow> Uploader \<times> event list \<times> error option" where
  "uploadLoop env [] u tr = (u, tr @ [Read], None)"
| "uploadLoop env (Inl e # rs) u tr = (u, tr @ [Read], Some e)"
| "uploadLoop env (Inr data # rs) u tr =
     (if data = [] then (u, tr @ [Read], None)
      else case Uploader_upload env u (tr @ [Read]) data of
             (u', tr', Some e) \<Rightarrow> (u', tr', Some e)
           | (u', tr', None) \<Rightarrow> uploadLoop env rs u' tr')"

text \<open>
  \<open>_upload\<close>: the \<open>with\<close> statement. When \<open>__enter__\<close> raises, the body and
  \<open>__exit__\<close> are not run. The result is the log and the exception the caller sees.
\<close>

definition upload :: "s3 \<Rightarrow> stream \<Rightarrow> string \<Rightarrow> event list \<Rightarrow> event list \<times> error option" where
  "upload env strm k tr =
     (case Uploader_enter env (Uploader_init k) tr of
        (u, tr1, Some e) \<Rightarrow> (tr1, Some e)
      | (u, tr1, None) \<Rightarrow>
          (case uploadLoop env strm u tr1 of
             (u2, tr2, exc) \<Rightarrow>
               (case Uploader_exit env u2 tr2 exc of (u3, tr3, r) \<Rightarrow> (tr3, r))))"

text \<open>
  The diff object handed to \<open>receive\<close>: its \<open>uuid\<close>, its \<open>previous\<close> (\<open>None\<close> for a
  full snapshot) and its \<open>diffSink\<close>, the store that holds it. Stores are compared with
  \<open>==\<close>, which is object identity for them; a store is named by a number here.
\<close>

record diffObj =
  d_uuid :: string
  d_previous :: "string option"
  d_diffSink :: nat

text \<open>\<open>"%s" % x\<close> for an optional string: \<open>None\<close> prints as the word \<open>None\<close>.\<close>

definition fmt_s :: "string option \<Rightarrow> string" where
  "fmt_s x = (case x of None \<Rightarrow> ''None'' | Some v \<Rightarrow> v)"

definition objectName :: "string \<Rightarrow> diffObj \<Rightarrow> string" where
  "objectName p d = p @ d_uuid d @ ''/'' @ fmt_s (d_previous d)"

text \<open>
  \<open>receive\<close>, for the store number \<open>self\<close> with prefix \<open>p\<close>. \<open>send\<close> is what
  \<open>diff.diffSink.send(diff)\<close> does: return a stream or raise.
\<close>

definition receive :: "nat \<Rightarrow> string \<Rightarrow> s3 \<Rightarrow> (diffObj \<Rightarrow> error + stream) \<Rightarrow> diffObj \<Rightarrow> event list \<times> error option" where
  "receive self p env send d =
     (if d_diffSink d = self then ([], None)
      else case send d of
             Inl e \<Rightarrow> ([Send], Some e)
           | Inr strm \<Rightarrow> upload env strm (objectName p d) [Send])"

subsection \<open>Observations on a log\<close>

text \<open>The part numbers of the chunk uploads of a log, in the order they were made.\<close>

fun parts :: "event list \<Rightarrow> int list" where
  "parts [] = []"
| "parts (UploadPart n b # tr) = n # parts tr"
| "parts (ev # tr) = parts tr"

text \<open>
  What is left of a stream is exhausted when its next read returns the empty string:
  nothing is left, or the next outcome is empty data.
\<close>

definition exhausted :: "stream \<Rightarrow> bool" where
  "exhausted rest = (case rest of [] \<Rightarrow> True | r # _ \<Rightarrow> r = Inr [])"

section \<open>The ioctl utilities (ioctl.py)\<close>

subsection \<open>Operation codes\<close>

text \<open>
  The widths, masks and offsets of the four fields of an operation code, as the module
  computes them, and \<open>Control._iocNumber\<close>. Python's integers are unbounded: \<open><<\<close> is
  \<open>push_bit\<close>, \<open>>>\<close> is \<open>drop_bit\<close>, \<open>|\<close> and \<open>&\<close> are \<open>OR\<close> and \<open>AND\<close> on \<open>int\<close>.
\<close>

definition NRBITS :: nat where "NRBITS = 8"
definition TYPEBITS :: nat where "TYPEBITS = 8"
definition SIZEBITS :: nat where "SIZEBITS = 14"
definition DIRBITS :: nat where "DIRBITS = 2"

definition NRMASK :: int where "NRMASK = push_bit NRBITS 1 - 1"
definition TYPEMASK :: int where "TYPEMASK = push_bit TYPEBITS 1 - 1"
definition SIZEMASK :: int where "SIZEMASK = push_bit SIZEBITS 1 - 1"
definition DIRMASK :: int where "DIRMASK = push_bit DIRBITS 1 - 1"

definition NRSHIFT :: nat where "NRSHIFT = 0"
definition TYPESHIFT :: nat where "TYPESHIFT = NRSHIFT + NRBITS"
definition SIZESHIFT :: nat where "SIZESHIFT = TYPESHIFT + TYPEBITS"
definition DIRSHIFT :: nat where "DIRSHIFT = SIZESHIFT + SIZEBITS"

definition iocNumber :: "int \<Rightarrow> int \<Rightarrow> int \<Rightarrow> int \<Rightarrow> int" where
  "iocNumber dir typ nr sz =
     push_bit DIRSHIFT dir OR push_bit TYPESHIFT typ OR push_bit NRSHIFT nr OR push_bit SIZESHIFT sz"

text \<open>A value fits a field of \<open>w\<close> bits.\<close>

definition in_width :: "nat \<Rightarrow> int \<Rightarrow> bool" where
  "in_width w x = (0 \<le> x \<and> x < 2 ^ w)"

subsection \<open>Values\<close>

text \<open>
  The Python values that reach the codec: \<open>None\<close>, integers, byte strings (\<open>str\<close>),
  text (\<open>unicode\<close>, a list of code points), dictionaries with string keys (the first
  binding of a key is the dictionary's) and the named tuples that \<open>read\<close> returns.
\<close>

datatype pyval =
  PNone
| PInt int
| PStr bytes
| PUni "nat list"
| PDict "(string \<times> pyval) list"
| PTuple "(string \<times> pyval) list"

text \<open>Truth value testing, as the operator \<open>or\<close> applies it.\<close>

fun truthy :: "pyval \<Rightarrow> bool" where
  "truthy PNone = False"
| "truthy (PInt n) = (n \<noteq> 0)"
| "truthy (PStr b) = (b \<noteq> [])"
| "truthy (PUni u) = (u \<noteq> [])"
| "truthy (PDict d) = (d \<noteq> [])"
| "truthy (PTuple fs) = (fs \<noteq> [])"

subsection \<open>UTF-8\<close>

text \<open>
  \<open>unicode.encode('utf-8')\<close>: one to four bytes for each code point.
\<close>

definition cont :: "nat \<Rightarrow> 8 word" where
  "cont n = of_nat (128 + n mod 64)"

fun utf8_encode :: "nat list \<Rightarrow> bytes" where
  "utf8_encode [] = []"
| "utf8_encode (c # cs) =
     (if c < 128 then [of_nat c]
      else if c < 2048 then [of_nat (192 + c div 64), cont c]
      else if c < 65536 then [of_nat (224 + c div 4096), cont (c div 64), cont c]
      else [of_nat (240 + c div 262144), cont (c div 4096), cont (c div 64), cont c])
     @ utf8_encode cs"

text \<open>
  \<open>str.decode('utf-8')\<close>, strict, as the automaton that reads one byte at a time:
  \<open>need\<close> continuation bytes are still expected, \<open>acc\<close> holds the bits read so far,
  and the next byte must lie between \<open>lo\<close> and \<open>hi\<close> (the second byte of a sequence is
  what excludes overlong forms and code points beyond U+10FFFF). Anything else raises.
\<close>

fun utf8_dec :: "bytes \<Rightarrow> nat \<Rightarrow> nat \<Rightarrow> nat \<Rightarrow> nat \<Rightarrow> error + nat list" where
  "utf8_dec [] need acc lo hi = (if need = 0 then Inr [] else Inl UnicodeDecodeError)"
| "utf8_dec (b # bs) need acc lo hi =
     (let n = unat b in
      if need = 0 then
        (if n < 128 then
           (case utf8_dec bs 0 0 128 191 of Inl e \<Rightarrow> Inl e | Inr cs \<Rightarrow> Inr (n # cs))
         else if n < 194 then Inl UnicodeDecodeError
         else if n < 224 then utf8_dec bs 1 (n - 192) 128 191
         else if n = 224 then utf8_dec bs 2 0 160 191
         else if n < 240 then utf8_dec bs 2 (n - 224) 128 191
         else if n = 240 then utf8_dec bs 3 0 144 191
         else if n < 244 then utf8_dec bs 3 (n - 240) 128 191
         else if n = 244 then utf8_dec bs 3 4 128 143
         else Inl UnicodeDecodeError)
      else if lo \<le> n \<and> n \<le> hi then
        (if need = 1 then
           (case utf8_dec bs 0 0 128 191 of Inl e \<Rightarrow> Inl e
            | Inr cs \<Rightarrow> Inr ((acc * 64 + (n - 128)) # cs))
         else utf8_dec bs (need - 1) (acc * 64 + (n - 128)) 128 191)
      else Inl UnicodeDecodeError)"

definition utf8_decode :: "bytes \<Rightarrow> error + nat list" where
  "utf8_decode bs = utf8_dec bs 0 0 128 191"



subsection \<open>The struct module\<close>

text \<open>
  The format characters of class \<open>t\<close>: \<open>u8 = 'B'\<close>, \<open>u16 = 'H'\<close>, \<open>u32 = 'L'\<close>,
  \<open>u64 = 'Q'\<close> and \<open>char = 'c'\<close>.
\<close>

datatype scalar = t_u8 | t_u16 | t_u32 | t_u64 | t_char

text \<open>
  One item of a format string as \<open>_parseDefinition\<close> produces them: a single scalar
  (\<open>'H'\<close>), a string of \<open>n\<close> bytes (\<open>'8s'\<close>) or \<open>n\<close> pad bytes (\<open>'8x'\<close>). A format is
  the list of its items; joining format strings is appending the lists.
\<close>

datatype item = Scalar scalar | Str nat | Pad nat

text \<open>
  The sizes of the standard layout, which the prefix \<open>=\<close> selects (no alignment), and
  the sizes \<open>struct.calcsize\<close> reports for a bare character, which are the native ones
  (an \<open>unsigned long\<close> has 8 bytes on 64-bit Linux).
\<close>

fun std_size :: "scalar \<Rightarrow> nat" where
  "std_size t_u8 = 1"
| "std_size t_u16 = 2"
| "std_size t_u32 = 4"
| "std_size t_u64 = 8"
| "std_size t_char = 1"

fun calcsize :: "scalar \<Rightarrow> nat" where
  "calcsize t_u8 = 1"
| "calcsize t_u16 = 2"
| "calcsize t_u32 = 8"
| "calcsize t_u64 = 8"
| "calcsize t_char = 1"

fun item_size :: "item \<Rightarrow> nat" where
  "item_size (Scalar c) = std_size c"
| "item_size (Str n) = n"
| "item_size (Pad n) = n"

definition fmt_size :: "item list \<Rightarrow> nat" where
  "fmt_size items = sum_list (map item_size items)"

text \<open>Unsigned integers in \<open>k\<close> bytes, least significant byte first (x86).\<close>

fun le_bytes :: "nat \<Rightarrow> int \<Rightarrow> bytes" where
  "le_bytes 0 n = []"
| "le_bytes (Suc k) n = of_int (n mod 256) # le_bytes k (n div 256)"

fun le_int :: "bytes \<Rightarrow> int" where
  "le_int [] = 0"
| "le_int (b # bs) = uint b + 256 * le_int bs"

text \<open>
  Packing one scalar: a character takes a byte string of length one, an integer format
  an integer within its range; everything else is a \<open>struct.error\<close>.
\<close>

fun pack_scalar :: "scalar \<Rightarrow> pyval \<Rightarrow> error + bytes" where
  "pack_scalar t_char (PStr b) = (if length b = 1 then Inr b else Inl StructError)"
| "pack_scalar t_char v = Inl StructError"
| "pack_scalar c (PInt n) =
     (if 0 \<le> n \<and> n < 2 ^ (8 * std_size c) then Inr (le_bytes (std_size c) n)
      else Inl StructError)"
| "pack_scalar c v = Inl StructError"

text \<open>
  \<open>pack_into\<close> at offset 0 of a zeroed buffer of the format's size: the items in order,
  each value item taking the next argument; pad bytes are zero; a string is cut or
  filled with zero bytes to its length. Too few or too many arguments is an error.
\<close>

fun pack_items :: "item list \<Rightarrow> pyval list \<Rightarrow> error + bytes" where
  "pack_items [] [] = Inr []"
| "pack_items [] (a # as) = Inl StructError"
| "pack_items (Pad n # is) as =
     (case pack_items is as of Inl e \<Rightarrow> Inl e | Inr bs \<Rightarrow> Inr (replicate n 0 @ bs))"
| "pack_items (i # is) [] = Inl StructError"
| "pack_items (Scalar c # is) (a # as) =
     (case pack_scalar c a of
        Inl e \<Rightarrow> Inl e
      | Inr b \<Rightarrow> (case pack_items is as of Inl e \<Rightarrow> Inl e | Inr bs \<Rightarrow> Inr (b @ bs)))"
| "pack_items (Str n # is) (a # as) =
     (case a of
        PStr b \<Rightarrow>
          (case pack_items is as of
             Inl e \<Rightarrow> Inl e
           | Inr bs \<Rightarrow> Inr (take n b @ replicate (n - length b) 0 @ bs))
      | _ \<Rightarrow> Inl StructError)"

fun unpack_scalar :: "scalar \<Rightarrow> bytes \<Rightarrow> pyval" where
  "unpack_scalar t_char b = PStr b"
| "unpack_scalar c b = PInt (le_int b)"

text \<open>The values of the items of a buffer that has the size of the format.\<close>

fun unpack_items :: "item list \<Rightarrow> bytes \<Rightarrow> pyval list" where
  "unpack_items [] bs = []"
| "unpack_items (Pad n # is) bs = unpack_items is (drop n bs)"
| "unpack_items (Scalar c # is) bs =
     unpack_scalar c (take (std_size c) bs) # unpack_items is (drop (std_size c) bs)"
| "unpack_items (Str n # is) bs = PStr (take n bs) # unpack_items is (drop n bs)"

text \<open>\<open>unpack_from\<close>: the buffer must hold the format's size from the offset on.\<close>

definition unpack_from :: "item list \<Rightarrow> bytes \<Rightarrow> nat \<Rightarrow> error + pyval list" where
  "unpack_from items data offset =
     (if length data < offset + fmt_size items then Inl StructError
      else Inr (unpack_items items (take (fmt_size items) (drop offset data))))"

subsection \<open>The readers and writers of class \<open>t\<close>\<close>

datatype reader = readString
datatype writer = writeChar | writeString

text \<open>\<open>ord\<close> of a value: defined on strings of length one.\<close>

fun py_ord :: "pyval \<Rightarrow> error + pyval" where
  "py_ord (PStr b) = (if length b = 1 then Inr (PInt (uint (hd b))) else Inl TypeError)"
| "py_ord (PUni u) = (if length u = 1 then Inr (PInt (int (hd u))) else Inl TypeError)"
| "py_ord v = Inl TypeError"

text \<open>
  \<open>writeChar\<close>: \<open>0 if value is None else ord(value[0])\<close>. Indexing a string gives the
  string of its first character, indexing a named tuple its first field, indexing a
  dictionary looks the key \<open>0\<close> up, which no dictionary with string keys holds.
\<close>

fun t_writeChar :: "pyval \<Rightarrow> error + pyval" where
  "t_writeChar PNone = Inr (PInt 0)"
| "t_writeChar (PInt n) = Inl TypeError"
| "t_writeChar (PStr b) = (case b of [] \<Rightarrow> Inl IndexError | x # _ \<Rightarrow> py_ord (PStr [x]))"
| "t_writeChar (PUni u) = (case u of [] \<Rightarrow> Inl IndexError | x # _ \<Rightarrow> py_ord (PUni [x]))"
| "t_writeChar (PDict d) = Inl KeyError"
| "t_writeChar (PTuple fs) = (case fs of [] \<Rightarrow> Inl IndexError | (n, x) # _ \<Rightarrow> py_ord x)"

text \<open>
  \<open>writeString\<close>: \<open>data.encode('utf-8') + chr(0)\<close>, or \<open>chr(0)\<close> for \<open>None\<close>. Encoding
  a byte string first decodes it as ASCII, which raises on a byte beyond 127.
\<close>

fun t_writeString :: "pyval \<Rightarrow> error + pyval" where
  "t_writeString PNone = Inr (PStr [0])"
| "t_writeString (PUni u) = Inr (PStr (utf8_encode u @ [0]))"
| "t_writeString (PStr b) =
     (if \<forall>x \<in> set b. unat x < 128 then Inr (PStr (b @ [0])) else Inl UnicodeDecodeError)"
| "t_writeString v = Inl AttributeError"

text \<open>
  \<open>readString\<close>: \<open>data.decode('utf-8').partition(chr(0))[0]\<close>, the decoded text up to
  its first null character. Decoding text first encodes it as ASCII.
\<close>

fun t_readString :: "pyval \<Rightarrow> error + pyval" where
  "t_readString (PStr b) =
     (case utf8_decode b of Inl e \<Rightarrow> Inl e | Inr u \<Rightarrow> Inr (PUni (takeWhile (\<lambda>c. c \<noteq> 0) u)))"
| "t_readString (PUni u) =
     (if \<forall>c \<in> set u. c < 128 then Inr (PUni (takeWhile (\<lambda>c. c \<noteq> 0) u))
      else Inl UnicodeEncodeError)"
| "t_readString v = Inl AttributeError"


subsection \<open>Structures\<close>

text \<open>
  A field type is the shared \<open>_SkipType\<close>, a \<open>_TypeWriter\<close> with its default, reader
  and writer (\<open>None\<close> for the identity), or a \<open>Structure\<close>. A \<open>Structure\<close> holds its
  format, \<open>_fmt\<close>, and its ordered dictionary of field types, \<open>_types\<close>. Structures are
  packed, which is the default: their layout is the standard one.
\<close>

datatype typeObj =
  SkipType
| TypeWriter pyval "reader option" "writer option"
| Sub Structure
and Structure =
  Structure (fmt: "item list") (types: "(string \<times> typeObj) list")

definition size_of :: "Structure \<Rightarrow> nat" where
  "size_of S = fmt_size (fmt S)"

definition apply_reader :: "reader option \<Rightarrow> pyval \<Rightarrow> error + pyval" where
  "apply_reader r x = (case r of None \<Rightarrow> Inr x | Some readString \<Rightarrow> t_readString x)"

definition apply_writer :: "writer option \<Rightarrow> pyval \<Rightarrow> error + pyval" where
  "apply_writer w x =
     (case w of None \<Rightarrow> Inr x | Some writeChar \<Rightarrow> t_writeChar x | Some writeString \<Rightarrow> t_writeString x)"

text \<open>\<open>keyArgs.get(name, None)\<close>: only a dictionary has the method.\<close>

definition lookup :: "(string \<times> pyval) list \<Rightarrow> string \<Rightarrow> pyval" where
  "lookup d name = (case map_of d name of None \<Rightarrow> PNone | Some v \<Rightarrow> v)"

fun py_get :: "pyval \<Rightarrow> string \<Rightarrow> error + pyval" where
  "py_get (PDict d) name = Inr (lookup d name)"
| "py_get v name = Inl AttributeError"

text \<open>
  \<open>yieldArgs\<close> of the three classes, as the list of what the generator yields: nothing
  for a skipped field, \<open>writer(arg) or default\<close> for a \<open>_TypeWriter\<close>, and for a
  \<open>Structure\<close> the arguments of its fields in order, each looked up in \<open>keyArgs\<close>.
\<close>

fun typeObj_yieldArgs :: "typeObj \<Rightarrow> pyval \<Rightarrow> error + pyval list"
  and Structure_yieldArgs :: "Structure \<Rightarrow> pyval \<Rightarrow> error + pyval list"
  and types_yieldArgs :: "(string \<times> typeObj) list \<Rightarrow> pyval \<Rightarrow> error + pyval list" where
  "typeObj_yieldArgs SkipType arg = Inr []"
| "typeObj_yieldArgs (TypeWriter d r w) arg =
     (case apply_writer w arg of
        Inl e \<Rightarrow> Inl e
      | Inr x \<Rightarrow> Inr [if truthy x then x else d])"
| "typeObj_yieldArgs (Sub S) arg = Structure_yieldArgs S arg"
| "Structure_yieldArgs (Structure f ts) keyArgs = types_yieldArgs ts keyArgs"
| "types_yieldArgs [] keyArgs = Inr []"
| "types_yieldArgs ((name, ty) # rest) keyArgs =
     (case py_get keyArgs name of
        Inl e \<Rightarrow> Inl e
      | Inr arg \<Rightarrow>
          (case typeObj_yieldArgs ty arg of
             Inl e \<Rightarrow> Inl e
           | Inr xs \<Rightarrow>
               (case types_yieldArgs rest keyArgs of
                  Inl e \<Rightarrow> Inl e
                | Inr ys \<Rightarrow> Inr (xs @ ys))))"

text \<open>
  \<open>write\<close>: the arguments are collected first, then packed into a zeroed array of the
  structure's size.
\<close>

definition Structure_write :: "Structure \<Rightarrow> pyval \<Rightarrow> error + bytes" where
  "Structure_write S keyArgs =
     (case Structure_yieldArgs S keyArgs of
        Inl e \<Rightarrow> Inl e
      | Inr args \<Rightarrow> pack_items (fmt S) args)"

text \<open>
  \<open>popValue\<close> of the three classes. \<open>argList.pop()\<close> removes and returns the last
  element of the list, so each function returns its value and the list that is left.
  A \<open>Structure\<close> returns the named tuple of the values of its fields.
\<close>

fun typeObj_popValue :: "typeObj \<Rightarrow> pyval list \<Rightarrow> error + (pyval \<times> pyval list)"
  and Structure_popValue :: "Structure \<Rightarrow> pyval list \<Rightarrow> error + (pyval \<times> pyval list)"
  and types_popValue :: "(string \<times> typeObj) list \<Rightarrow> pyval list \<Rightarrow> error + (pyval list \<times> pyval list)" where
  "typeObj_popValue SkipType argList = Inr (PNone, argList)"
| "typeObj_popValue (TypeWriter d r w) argList =
     (if argList = [] then Inl IndexError
      else case apply_reader r (last argList) of
             Inl e \<Rightarrow> Inl e
           | Inr v \<Rightarrow> Inr (v, butlast argList))"
| "typeObj_popValue (Sub S) argList = Structure_popValue S argList"
| "Structure_popValue (Structure f ts) argList =
     (case types_popValue ts argList of
        Inl e \<Rightarrow> Inl e
      | Inr (vs, rest) \<Rightarrow> Inr (PTuple (zip (map fst ts) vs), rest))"
| "types_popValue [] argList = Inr ([], argList)"
| "types_popValue ((name, ty) # rest) argList =
     (case typeObj_popValue ty argList of
        Inl e \<Rightarrow> Inl e
      | Inr (v, argList') \<Rightarrow>
          (case types_popValue rest argList' of
             Inl e \<Rightarrow> Inl e
           | Inr (vs, argList'') \<Rightarrow> Inr (v # vs, argList'')))"

text \<open>\<open>read\<close>: unpack at the offset, reverse the list of values, pop the fields.\<close>

definition Structure_read :: "Structure \<Rightarrow> bytes \<Rightarrow> nat \<Rightarrow> error + pyval" where
  "Structure_read S data offset =
     (case unpack_from (fmt S) data offset of
        Inl e \<Rightarrow> Inl e
      | Inr args \<Rightarrow>
          (case Structure_popValue S (rev args) of
             Inl e \<Rightarrow> Inl e
           | Inr (v, rest) \<Rightarrow> Inr v))"


subsection \<open>Building a structure\<close>

text \<open>
  The first argument of a field definition: one of the characters of class \<open>t\<close>, the
  characters \<open>'s'\<close> and \<open>'x'\<close>, or a \<open>Structure\<close>. A field definition is the tuple
  \<open>(typeDef, name, len, reader, writer)\<close>; \<open>len\<close> defaults to 1 and the reader and
  writer to \<open>None\<close>.
\<close>

datatype fmtChar = Ch scalar | Ch_s | Ch_x

datatype typeDef = Fmt fmtChar | Struct Structure

record field =
  f_typeDef :: typeDef
  f_name :: string
  f_len :: nat
  f_reader :: "reader option"
  f_writer :: "writer option"

text \<open>
  \<open>Structure.defaults\<close>, by the last character of the format: the empty string for
  \<open>'s'\<close>, 0 for the integers, \<open>chr(0)\<close> for \<open>'c'\<close>. It is not consulted for \<open>'x'\<close>.
\<close>

fun defaults :: "scalar \<Rightarrow> pyval" where
  "defaults t_char = PStr [0]"
| "defaults c = PInt 0"

text \<open>
  \<open>_parseDefinition\<close> for a format character. A length other than 1 turns every
  character but \<open>'s'\<close> and \<open>'x'\<close> into \<open>'s'\<close> and puts the length times the native
  size in front.
\<close>

fun native_size :: "fmtChar \<Rightarrow> nat" where
  "native_size (Ch c) = calcsize c"
| "native_size Ch_s = 1"
| "native_size Ch_x = 1"

definition parseItem :: "fmtChar \<Rightarrow> nat \<Rightarrow> item" where
  "parseItem c len =
     (if len \<noteq> 1 then
        (case c of
           Ch_x \<Rightarrow> Pad (len * native_size c)
         | _ \<Rightarrow> Str (len * native_size c))
      else
        (case c of
           Ch sc \<Rightarrow> Scalar sc
         | Ch_s \<Rightarrow> Str 1
         | Ch_x \<Rightarrow> Pad 1))"

definition parseDefinition :: "field \<Rightarrow> string \<times> item list \<times> typeObj" where
  "parseDefinition f =
     (case f_typeDef f of
        Struct S \<Rightarrow> (f_name f, fmt S, Sub S)
      | Fmt c \<Rightarrow>
          (let i = parseItem c (f_len f);
               typeObj = (case i of
                            Pad n \<Rightarrow> SkipType
                          | Scalar sc \<Rightarrow> TypeWriter (defaults sc) (f_reader f) (f_writer f)
                          | Str n \<Rightarrow> TypeWriter (PStr []) (f_reader f) (f_writer f))
           in (f_name f, [i], typeObj)))"

text \<open>
  The checks of \<open>collections.namedtuple\<close> on the field names: letters, digits and
  underscores only, no keyword, no digit or underscore in front, no name twice. A
  failed check raises \<open>ValueError\<close>.
\<close>

definition isalnum :: "char \<Rightarrow> bool" where
  "isalnum c =
     (let n = of_char c :: nat
      in (48 \<le> n \<and> n \<le> 57) \<or> (65 \<le> n \<and> n \<le> 90) \<or> (97 \<le> n \<and> n \<le> 122))"

definition isdigit :: "char \<Rightarrow> bool" where
  "isdigit c = (let n = of_char c :: nat in 48 \<le> n \<and> n \<le> 57)"

definition kwlist :: "string list" where
  "kwlist = [''and'', ''as'', ''assert'', ''break'', ''class'', ''continue'', ''def'', ''del'',
     ''elif'', ''else'', ''except'', ''exec'', ''finally'', ''for'', ''from'', ''global'', ''if'',
     ''import'', ''in'', ''is'', ''lambda'', ''not'', ''or'', ''pass'', ''print'', ''raise'',
     ''return'', ''try'', ''while'', ''with'', ''yield'']"

text \<open>
  The first loop of \<open>namedtuple\<close> over the names: each name is checked in turn, and
  \<open>name[0]\<close> of an empty name raises \<open>IndexError\<close>. The second loop refuses a leading
  underscore and a name seen before.
\<close>

fun check_names :: "string list \<Rightarrow> error option" where
  "check_names [] = None"
| "check_names (n # ns) =
     (if \<not> list_all (\<lambda>c. isalnum c \<or> c = CHR ''_'') n then Some ValueError
      else if n \<in> set kwlist then Some ValueError
      else if n = [] then Some IndexError
      else if isdigit (hd n) then Some ValueError
      else check_names ns)"

fun check_seen :: "string list \<Rightarrow> string list \<Rightarrow> error option" where
  "check_seen [] seen_names = None"
| "check_seen (n # ns) seen_names =
     (if take 1 n = ''_'' then Some ValueError
      else if n \<in> set seen_names then Some ValueError
      else check_seen ns (n # seen_names))"

text \<open>
  \<open>Structure.__init__\<close>. Without fields, \<open>unzip\<close> returns the empty list, which does
  not unpack into three names (\<open>ValueError\<close>); with fields, \<open>namedtuple\<close> checks the
  names.
\<close>

definition Structure_init :: "field list \<Rightarrow> error + Structure" where
  "Structure_init fs =
     (let parsed = map parseDefinition fs;
          names = map fst parsed;
          formats = map (fst \<circ> snd) parsed;
          typs = map (snd \<circ> snd) parsed
      in if fs = [] then Inl ValueError
         else case check_names names of
                Some e \<Rightarrow> Inl e
              | None \<Rightarrow>
                  (case check_seen names [] of
                     Some e \<Rightarrow> Inl e
                   | None \<Rightarrow> Inr (Structure (concat formats) (zip names typs))))"


subsection \<open>The round trip, as specified\<close>

text \<open>
  What decoding the encoding of a value is specified to return, field by field; \<open>None\<close>
  where the field or its value is outside what the specification covers.
  \<^item> An integer field (a \<open>u8\<close>, \<open>u16\<close>, \<open>u32\<close> or \<open>u64\<close> without reader and writer)
    with an integer within its range: the integer.
  \<^item> A character field with a byte string of length one: that string.
  \<^item> A string field (\<open>n\<close> bytes with \<open>readString\<close> and \<open>writeString\<close>) with text
    whose UTF-8 encoding, cut to \<open>n\<close> bytes, ends with a whole character: the
    characters that fit the \<open>n\<close> bytes, trimmed at the first null character. With an
    ASCII byte string: the text of the same characters, cut and trimmed in the same way.
  \<^item> A byte-array field (\<open>n\<close> bytes without reader and writer) with a byte string: the
    string cut to \<open>n\<close> bytes or filled to \<open>n\<close> bytes with null bytes.
  \<^item> A padding field: \<open>None\<close>.
\<close>

text \<open>
  Text is a sequence of characters, that is of code points other than surrogates (what
  the codec makes of a surrogate depends on how the interpreter was built).
  \<open>fit n u\<close> is what \<open>n\<close> bytes hold of the text \<open>u\<close>: the longest prefix of \<open>u\<close> whose
  encoding has at most \<open>n\<close> bytes, provided that the \<open>n\<close>-th byte of the encoding of
  \<open>u\<close>, if there is one, is the last byte of a character; \<open>None\<close> when it lies inside a
  character.
\<close>

definition unicode_scalar :: "nat \<Rightarrow> bool" where
  "unicode_scalar c = (c < 55296 \<or> (57344 \<le> c \<and> c < 1114112))"

fun fit :: "nat \<Rightarrow> nat list \<Rightarrow> nat list option" where
  "fit n [] = Some []"
| "fit n (c # cs) =
     (let l = length (utf8_encode [c]) in
      if l \<le> n then map_option ((#) c) (fit (n - l) cs)
      else if n = 0 then Some [] else None)"

definition field_spec :: "typeObj \<Rightarrow> item \<Rightarrow> pyval \<Rightarrow> pyval option" where
  "field_spec ty i v =
     (case ty of
        SkipType \<Rightarrow> (case i of Pad n \<Rightarrow> Some PNone | _ \<Rightarrow> None)
      | Sub S \<Rightarrow> None
      | TypeWriter d r w \<Rightarrow>
          (case i of
             Pad n \<Rightarrow> None
           | Scalar c \<Rightarrow>
               if r = None \<and> w = None then
                 (case v of
                    PInt n \<Rightarrow>
                      if c \<noteq> t_char \<and> d = PInt 0 \<and> 0 \<le> n \<and> n < 2 ^ (8 * std_size c)
                      then Some (PInt n) else None
                  | PStr b \<Rightarrow> if c = t_char \<and> length b = 1 then Some (PStr b) else None
                  | _ \<Rightarrow> None)
               else None
           | Str n \<Rightarrow>
               if r = Some readString \<and> w = Some writeString then
                 (case v of
                    PUni u \<Rightarrow>
                      if list_all unicode_scalar u
                      then map_option (\<lambda>u'. PUni (takeWhile (\<lambda>c. c \<noteq> 0) u')) (fit n u)
                      else None
                  | PStr b \<Rightarrow>
                      if list_all (\<lambda>x. unat x < 128) b
                      then Some (PUni (takeWhile (\<lambda>c. c \<noteq> 0) (take n (map unat b))))
                      else None
                  | _ \<Rightarrow> None)
               else if r = None \<and> w = None then
                 (case v of
                    PStr b \<Rightarrow>
                      if d = PStr [] then Some (PStr (take n b @ replicate (n - length b) 0))
                      else None
                  | _ \<Rightarrow> None)
               else None))"

text \<open>
  The fields of a structure against its format and a dictionary: a nested structure
  takes its own format from the front of the format and the dictionary found under its
  name, and yields a named tuple; every other field takes one item and the value found
  under its name (\<open>None\<close> when there is none).
\<close>

fun types_spec :: "(string \<times> typeObj) list \<Rightarrow> item list \<Rightarrow> (string \<times> pyval) list \<Rightarrow> (string \<times> pyval) list option" where
  "types_spec [] items d = (if items = [] then Some [] else None)"
| "types_spec ((name, Sub (Structure f ts)) # rest) items d =
     (if take (length f) items \<noteq> f then None
      else case lookup d name of
             PDict d' \<Rightarrow>
               (case types_spec ts f d' of
                  None \<Rightarrow> None
                | Some r \<Rightarrow>
                    (case types_spec rest (drop (length f) items) d of
                       None \<Rightarrow> None
                     | Some rs \<Rightarrow> Some ((name, PTuple r) # rs)))
           | _ \<Rightarrow> None)"
| "types_spec ((name, SkipType) # rest) items d =
     (case items of
        [] \<Rightarrow> None
      | i # items' \<Rightarrow>
          (case field_spec SkipType i (lookup d name) of
             None \<Rightarrow> None
           | Some r \<Rightarrow>
               (case types_spec rest items' d of
                  None \<Rightarrow> None
                | Some rs \<Rightarrow> Some ((name, r) # rs))))"
| "types_spec ((name, TypeWriter dv rd wr) # rest) items d =
     (case items of
        [] \<Rightarrow> None
      | i # items' \<Rightarrow>
          (case field_spec (TypeWriter dv rd wr) i (lookup d name) of
             None \<Rightarrow> None
           | Some r \<Rightarrow>
               (case types_spec rest items' d of
                  None \<Rightarrow> None
                | Some rs \<Rightarrow> Some ((name, r) # rs))))"

definition roundtrip_spec :: "Structure \<Rightarrow> pyval \<Rightarrow> pyval option" where
  "roundtrip_spec S v =
     (case v of
        PDict d \<Rightarrow>
          (case types_spec (types S) (fmt S) d of None \<Rightarrow> None | Some r \<Rightarrow> Some (PTuple r))
      | _ \<Rightarrow> None)"

text \<open>
  The specified result for one field definition and a dictionary: for a nested
  structure, the specified result of that structure on the dictionary found under the
  field's name; for a format character, the specified result of the field that
  \<open>_parseDefinition\<close> makes of it.
\<close>

definition def_spec :: "field \<Rightarrow> (string \<times> pyval) list \<Rightarrow> pyval option" where
  "def_spec f d =
     (case f_typeDef f of
        Struct S \<Rightarrow>
          (case lookup d (f_name f) of
             PDict d' \<Rightarrow> map_option PTuple (types_spec (types S) (fmt S) d')
           | _ \<Rightarrow> None)
      | Fmt c \<Rightarrow>
          field_spec (snd (snd (parseDefinition f))) (parseItem c (f_len f)) (lookup d (f_name f)))"

text \<open>
  The steps of a round trip for the fields \<open>ts\<close> with the format \<open>items\<close>: collecting
  the arguments from the dictionary \<open>d\<close> and packing them succeeds, and popping the
  unpacked values gives the values of \<open>r\<close>, under the names of the fields, and leaves of
  the argument list what does not belong to these fields.
\<close>

definition roundtrips :: "(string \<times> typeObj) list \<Rightarrow> item list \<Rightarrow> (string \<times> pyval) list \<Rightarrow> (string \<times> pyval) list \<Rightarrow> bool" where
  "roundtrips ts items d r =
     (\<exists>args bs. types_yieldArgs ts (PDict d) = Inr args \<and> pack_items items args = Inr bs \<and>
        (\<forall>tail. types_popValue ts (tail @ rev (unpack_items items bs)) = Inr (map snd r, tail)) \<and>
        map fst r = map fst ts)"



section \<open>Properties of the S3 back-end\<close>

subsection \<open>Graph queries\<close>

lemma hasEdgeLoop_iff:
  "hasEdgeLoop D t f = (\<exists>d \<in> set D. diff_to d = t \<and> diff_from d = f)"
  by (induction D) auto

lemma iterEdgesLoop_eq:
  "iterEdgesLoop D f =
     map (\<lambda>d. \<lparr>edge_to = diff_to d, edge_size = diff_size d\<rparr>) (filter (\<lambda>d. diff_from d = f) D)"
  by (induction D) auto

text \<open>
  Claim C5. For a store holding the listing \<open>D\<close>, \<open>hasEdge to from\<close> is true exactly
  when some diff of \<open>D\<close> has that \<open>to\<close> and that \<open>from\<close>, and \<open>iterEdges from\<close> yields
  one edge for each diff of \<open>D\<close> whose \<open>from\<close> is the given one, in listing order;
  \<open>from\<close> may be \<open>None\<close>, which selects the full snapshots.
\<close>

theorem graph_queries:
  "diffs s = Some D \<Longrightarrow>
     hasEdge s t f = Inr (\<exists>d \<in> set D. diff_to d = t \<and> diff_from d = f) \<and>
     iterEdges s f =
       Inr (map (\<lambda>d. \<lparr>edge_to = diff_to d, edge_size = diff_size d\<rparr>)
              (filter (\<lambda>d. diff_from d = f) D))"
  by (simp add: hasEdge_def iterEdges_def hasEdgeLoop_iff iterEdgesLoop_eq)

theorem graph_queries_witness:
  "hasEdge \<lparr>bucketName = ''b'', prefix = ''snap/'',
            diffs = Some [\<lparr>diff_from = Some ''V1'', diff_to = ''V2'', diff_size = 3, diff_path = ''V2''\<rparr>,
                          \<lparr>diff_from = None, diff_to = ''V1'', diff_size = 5, diff_path = ''V1''\<rparr>,
                          \<lparr>diff_from = None, diff_to = ''V3'', diff_size = 7, diff_path = ''V3''\<rparr>],
            vols = None\<rparr> ''V2'' (Some ''V1'') = Inr True \<and>
   hasEdge \<lparr>bucketName = ''b'', prefix = ''snap/'',
            diffs = Some [\<lparr>diff_from = Some ''V1'', diff_to = ''V2'', diff_size = 3, diff_path = ''V2''\<rparr>,
                          \<lparr>diff_from = None, diff_to = ''V1'', diff_size = 5, diff_path = ''V1''\<rparr>,
                          \<lparr>diff_from = None, diff_to = ''V3'', diff_size = 7, diff_path = ''V3''\<rparr>],
            vols = None\<rparr> ''V1'' (Some ''V2'') = Inr False \<and>
   iterEdges \<lparr>bucketName = ''b'', prefix = ''snap/'',
            diffs = Some [\<lparr>diff_from = Some ''V1'', diff_to = ''V2'', diff_size = 3, diff_path = ''V2''\<rparr>,
                          \<lparr>diff_from = None, diff_to = ''V1'', diff_size = 5, diff_path = ''V1''\<rparr>,
                          \<lparr>diff_from = None, diff_to = ''V3'', diff_size = 7, diff_path = ''V3''\<rparr>],
            vols = None\<rparr> None =
     Inr [\<lparr>edge_to = ''V1'', edge_size = 5\<rparr>, \<lparr>edge_to = ''V3'', edge_size = 7\<rparr>]"
proof -
  let ?D = "[\<lparr>diff_from = Some ''V1'', diff_to = ''V2'', diff_size = 3, diff_path = ''V2''\<rparr>,
             \<lparr>diff_from = None, diff_to = ''V1'', diff_size = 5, diff_path = ''V1''\<rparr>,
             \<lparr>diff_from = None, diff_to = ''V3'', diff_size = 7, diff_path = ''V3''\<rparr>]"
  let ?s = "\<lparr>bucketName = ''b'', prefix = ''snap/'', diffs = Some ?D, vols = None\<rparr>"
  have h: "diffs ?s = Some ?D" by simp
  show ?thesis
    using graph_queries [OF h, of "''V2''" "Some ''V1''"]
      graph_queries [OF h, of "''V1''" "Some ''V2''"]
      graph_queries [OF h, of "''V1''" None]
    by simp
qed

subsection \<open>Receiving from oneself\<close>

text \<open>
  Claim C6. When the diff's sink is the receiving store itself, \<open>receive\<close> returns
  at once: the log of calls is empty, so the source stream was neither requested nor
  read, no upload was begun and no chunk was sent.
\<close>

theorem receive_self:
  "d_diffSink d = self \<Longrightarrow> receive self p env send d = ([], None)"
  by (simp add: receive_def)

theorem receive_self_witness:
  "d_diffSink \<lparr>d_uuid = ''V2'', d_previous = Some ''V1'', d_diffSink = 4\<rparr> = 4 \<and>
   receive 4 ''snap/''
     \<lparr>initiate_result = None, upload_result = (\<lambda>n b. None), complete_result = None,
      cancel_result = None\<rparr>
     (\<lambda>d. Inr [Inr [1, 2], Inr [3]])
     \<lparr>d_uuid = ''V2'', d_previous = Some ''V1'', d_diffSink = 4\<rparr> = ([], None)"
proof -
  have h: "d_diffSink \<lparr>d_uuid = ''V2'', d_previous = Some ''V1'', d_diffSink = 4\<rparr> = 4" by simp
  show ?thesis
    using h receive_self [OF h, of "''snap/''"
        "\<lparr>initiate_result = None, upload_result = (\<lambda>n b. None), complete_result = None,
          cancel_result = None\<rparr>"
        "\<lambda>d. Inr [Inr [1, 2], Inr [3]]"]
    by simp
qed

subsection \<open>What a listing stores\<close>

lemma listLoop_ok:
  "listLoop p ks ds = (ds', None) \<Longrightarrow>
     \<exists>keys new. ks = map Inr keys \<and> map (parseKey p) keys = map Inr new \<and> ds' = ds @ new"
proof (induction p ks ds rule: listLoop.induct)
  case (1 p ds)
  then show ?case by simp
next
  case (2 p e ks ds)
  then show ?case by simp
next
  case (3 p k ks ds)
  from "3.prems" obtain d where d: "parseKey p k = Inr d"
    by (cases "parseKey p k") auto
  with "3.prems" have "listLoop p ks (ds @ [d]) = (ds', None)" by simp
  from "3.IH"[OF d this] obtain keys new where
    "ks = map Inr keys" "map (parseKey p) keys = map Inr new" "ds' = (ds @ [d]) @ new" by blast
  then have "Inr k # ks = map Inr (k # keys) \<and> map (parseKey p) (k # keys) = map Inr (d # new)
      \<and> ds' = ds @ (d # new)"
    using d by simp
  then show ?case by (intro exI[of _ "k # keys"] exI[of _ "d # new"])
qed


lemma parseKey_size: "parseKey p k = Inr d \<Longrightarrow> diff_size d = of_int (key_size k) / 2 ^ 20"
  by (auto simp: parseKey_def split: option.splits)

lemma map_parseKey_size:
  "map (parseKey p) keys = map Inr new \<Longrightarrow>
     map diff_size new = map (\<lambda>k. of_int (key_size k) / 2 ^ 20) keys"
proof (induction keys arbitrary: new)
  case Nil
  then show ?case by simp
next
  case (Cons k keys)
  then obtain d new' where "new = d # new'" by (cases new) auto
  with Cons show ?case by (auto simp: parseKey_size)
qed

text \<open>
  Claim C1, as the specification states it, fails: the size of a listed object is divided
  by \<open>2 ^ 20\<close> before it is stored, so an object of 1048576 bytes is listed, and yielded
  by \<open>iterEdges\<close>, with size 1.
\<close>

theorem size_in_bytes_counterexample:
  "iterEdges
     (fst (listBucket \<lparr>bucketName = ''b'', prefix = ''snap/'', diffs = None, vols = None\<rparr>
             [Inr \<lparr>key_name = ''snap/V1/None'', key_size = 1048576\<rparr>])) None =
     Inr [\<lparr>edge_to = ''V1'', edge_size = 1\<rparr>] \<and>
   iterEdges
     (fst (listBucket \<lparr>bucketName = ''b'', prefix = ''snap/'', diffs = None, vols = None\<rparr>
             [Inr \<lparr>key_name = ''snap/V1/None'', key_size = 1048576\<rparr>])) None \<noteq>
     Inr [\<lparr>edge_to = ''V1'', edge_size = 1048576\<rparr>]"
  by (simp add: listBucket_def parseKey_def pattern_match_def match_from_def iterEdges_def)

text \<open>
  Claim C1, amended. After a listing that completes, the store holds one diff for each
  object listed, in order, whose size is the object's byte size divided by \<open>2 ^ 20\<close>
  (the size in MB that the documentation of \<open>iterEdges\<close> announces), and every edge
  that \<open>iterEdges\<close> yields carries the size of the stored diff it comes from, unchanged.
\<close>

theorem size_in_mebibytes:
  assumes "listBucket s ks = (s', None)"
  shows "\<exists>keys ds. ks = map Inr keys \<and> diffs s' = Some ds \<and>
           map diff_size ds = map (\<lambda>k. of_int (key_size k) / 2 ^ 20) keys \<and>
           (\<forall>f. iterEdges s' f =
                  Inr (map (\<lambda>d. \<lparr>edge_to = diff_to d, edge_size = diff_size d\<rparr>)
                         (filter (\<lambda>d. diff_from d = f) ds)))"
proof -
  from assms obtain ds where l: "listLoop (prefix s) ks [] = (ds, None)"
      and s': "s' = s\<lparr>diffs := Some ds, vols := Some (volsOf ds)\<rparr>"
    by (auto simp: listBucket_def split: prod.splits option.splits)
  from listLoop_ok[OF l] obtain keys where
    k: "ks = map Inr keys" "map (parseKey (prefix s)) keys = map Inr ds"
    by auto
  have "map diff_size ds = map (\<lambda>k. of_int (key_size k) / 2 ^ 20) keys"
    using k(2) by (rule map_parseKey_size)
  moreover have "\<forall>f. iterEdges s' f =
                  Inr (map (\<lambda>d. \<lparr>edge_to = diff_to d, edge_size = diff_size d\<rparr>)
                         (filter (\<lambda>d. diff_from d = f) ds))"
    using s' by (simp add: iterEdges_def iterEdgesLoop_eq)
  ultimately show ?thesis using k(1) s' by auto
qed

theorem size_in_mebibytes_witness:
  "listBucket \<lparr>bucketName = ''b'', prefix = ''snap/'', diffs = None, vols = None\<rparr>
     [Inr \<lparr>key_name = ''snap/V2/V1'', key_size = 3145728\<rparr>,
      Inr \<lparr>key_name = ''snap/V1/None'', key_size = 524288\<rparr>] =
     (\<lparr>bucketName = ''b'', prefix = ''snap/'',
       diffs = Some [\<lparr>diff_from = Some ''V1'', diff_to = ''V2'', diff_size = 3, diff_path = ''V2''\<rparr>,
                     \<lparr>diff_from = None, diff_to = ''V1'', diff_size = 1 / 2, diff_path = ''V1''\<rparr>],
       vols = Some (volsOf
                    [\<lparr>diff_from = Some ''V1'', diff_to = ''V2'', diff_size = 3, diff_path = ''V2''\<rparr>,
                     \<lparr>diff_from = None, diff_to = ''V1'', diff_size = 1 / 2, diff_path = ''V1''\<rparr>])\<rparr>,
      None) \<and>
   map diff_size
     [\<lparr>diff_from = Some ''V1'', diff_to = ''V2'', diff_size = 3, diff_path = ''V2''\<rparr>,
      \<lparr>diff_from = None, diff_to = ''V1'', diff_size = 1 / 2, diff_path = ''V1''\<rparr>] =
     map (\<lambda>k. of_int (key_size k) / 2 ^ 20)
       [\<lparr>key_name = ''snap/V2/V1'', key_size = 3145728\<rparr>,
        \<lparr>key_name = ''snap/V1/None'', key_size = 524288\<rparr>]"
proof -
  let ?s = "\<lparr>bucketName = ''b'', prefix = ''snap/'', diffs = None, vols = None\<rparr>"
  let ?k1 = "\<lparr>key_name = ''snap/V2/V1'', key_size = 3145728\<rparr>"
  let ?k2 = "\<lparr>key_name = ''snap/V1/None'', key_size = 524288\<rparr>"
  let ?ds = "[\<lparr>diff_from = Some ''V1'', diff_to = ''V2'', diff_size = 3, diff_path = ''V2''\<rparr>,
              \<lparr>diff_from = None, diff_to = ''V1'', diff_size = 1 / 2, diff_path = ''V1''\<rparr>]"
  let ?s' = "\<lparr>bucketName = ''b'', prefix = ''snap/'', diffs = Some ?ds, vols = Some (volsOf ?ds)\<rparr>"
  have h: "listBucket ?s [Inr ?k1, Inr ?k2] = (?s', None)"
    by (simp add: listBucket_def parseKey_def pattern_match_def match_from_def)
  from size_in_mebibytes [OF h] obtain keys ds where
    k: "[Inr ?k1, Inr ?k2 :: error + key] = map Inr keys" and d: "diffs ?s' = Some ds"
    and m: "map diff_size ds = map (\<lambda>k. of_int (key_size k) / 2 ^ 20) keys"
    by (elim exE conjE)
  from k have "keys = [?k1, ?k2]" by auto
  moreover from d have "ds = ?ds" by simp
  ultimately have "map diff_size ?ds = map (\<lambda>k. of_int (key_size k) / 2 ^ 20) [?k1, ?k2]"
    using m by simp
  with h show ?thesis by (intro conjI)
qed





subsection \<open>Object names\<close>

lemma pattern_match_name:
  assumes "CHR ''/'' \<notin> set t" and "CHR 0x0A \<notin> set f"
  shows "pattern_match p (p @ t @ ''/'' @ f) = Some (t, f)"
proof -
  have tw: "takeWhile (\<lambda>c. c \<noteq> CHR ''/'') (t @ CHR ''/'' # f) = t"
    using assms(1) by (auto simp: takeWhile_tail)
  have dw: "dropWhile (\<lambda>c. c \<noteq> CHR ''/'') (t @ CHR ''/'' # f) = CHR ''/'' # f"
    using assms(1) by (auto simp: dropWhile_append3)
  show ?thesis
    using assms(2) by (simp add: pattern_match_def Let_def tw dw match_from_def)
qed

text \<open>
  Claim C8, as the specification states it, fails for an identifier that contains a
  slash: the diff with \<open>uuid\<close> \<open>a/b\<close> and \<open>previous\<close> \<open>c\<close> is uploaded as
  \<open>snap/a/b/c\<close>, which the listing reads as the diff to \<open>a\<close> from \<open>b/c\<close>. It also
  fails for a \<open>previous\<close> that contains a newline, which \<open>.*\<close> does not match: the
  name is not matched and the listing raises.
\<close>

theorem object_name_counterexample:
  "parseKey ''snap/''
     \<lparr>key_name = objectName ''snap/'' \<lparr>d_uuid = ''a/b'', d_previous = Some ''c'', d_diffSink = 0\<rparr>,
      key_size = 0\<rparr> =
     Inr \<lparr>diff_from = Some ''b/c'', diff_to = ''a'', diff_size = 0, diff_path = ''a''\<rparr> \<and>
   diff_to \<lparr>diff_from = Some ''b/c'', diff_to = ''a'', diff_size = 0, diff_path = ''a''\<rparr> \<noteq>
     d_uuid \<lparr>d_uuid = ''a/b'', d_previous = Some ''c'', d_diffSink = 0\<rparr> \<and>
   parseKey ''snap/''
     \<lparr>key_name = objectName ''snap/''
        \<lparr>d_uuid = ''V2'', d_previous = Some [CHR ''a'', CHR 0x0A, CHR ''b''], d_diffSink = 0\<rparr>,
      key_size = 0\<rparr> = Inl AttributeError"
  by (simp add: parseKey_def objectName_def fmt_s_def pattern_match_def match_from_def)

text \<open>
  Claim C8, amended. For a prefix free of metacharacters of regular expressions, a
  \<open>uuid\<close> free of slashes and a \<open>previous\<close> free of newlines, the name that \<open>receive\<close>
  builds, prefix, \<open>uuid\<close>, a slash and \<open>previous\<close> or the word \<open>None\<close>, is read back by
  the listing as a diff whose \<open>to\<close> is the \<open>uuid\<close> and whose \<open>from\<close> is \<open>previous\<close>, or
  \<open>None\<close> when the last segment of the name is the word \<open>None\<close>.
\<close>

theorem object_name_roundtrip:
  assumes "regex_literal p" and "CHR ''/'' \<notin> set (d_uuid d)"
    and "CHR 0x0A \<notin> set (fmt_s (d_previous d))"
  shows "parseKey p \<lparr>key_name = objectName p d, key_size = n\<rparr> =
           Inr \<lparr>diff_from = (if fmt_s (d_previous d) = ''None'' then None else d_previous d),
                diff_to = d_uuid d,
                diff_size = of_int n / 2 ^ 20,
                diff_path = d_uuid d\<rparr>"
  using pattern_match_name[OF assms(2,3), of p]
  by (cases "d_previous d") (auto simp: parseKey_def objectName_def fmt_s_def)

theorem object_name_roundtrip_witness:
  "regex_literal ''snap/'' \<and>
   objectName ''snap/'' \<lparr>d_uuid = ''V2'', d_previous = Some ''V1'', d_diffSink = 0\<rparr> = ''snap/V2/V1'' \<and>
   objectName ''snap/'' \<lparr>d_uuid = ''V1'', d_previous = None, d_diffSink = 0\<rparr> = ''snap/V1/None'' \<and>
   parseKey ''snap/'' \<lparr>key_name = ''snap/V2/V1'', key_size = 1048576\<rparr> =
     Inr \<lparr>diff_from = Some ''V1'', diff_to = ''V2'', diff_size = 1, diff_path = ''V2''\<rparr> \<and>
   parseKey ''snap/'' \<lparr>key_name = ''snap/V1/None'', key_size = 2097152\<rparr> =
     Inr \<lparr>diff_from = None, diff_to = ''V1'', diff_size = 2, diff_path = ''V1''\<rparr> \<and>
   diffs (fst (listBucket \<lparr>bucketName = ''b'', prefix = ''snap/'', diffs = None, vols = None\<rparr>
                 [Inr \<lparr>key_name = ''snap/V2/V1'', key_size = 1048576\<rparr>,
                  Inr \<lparr>key_name = ''snap/V1/None'', key_size = 2097152\<rparr>])) =
     Some [\<lparr>diff_from = Some ''V1'', diff_to = ''V2'', diff_size = 1, diff_path = ''V2''\<rparr>,
           \<lparr>diff_from = None, diff_to = ''V1'', diff_size = 2, diff_path = ''V1''\<rparr>] \<and>
   getVolume (fst (listBucket \<lparr>bucketName = ''b'', prefix = ''snap/'', diffs = None, vols = None\<rparr>
                 [Inr \<lparr>key_name = ''snap/V2/V1'', key_size = 1048576\<rparr>,
                  Inr \<lparr>key_name = ''snap/V1/None'', key_size = 2097152\<rparr>])) ''V1'' =
     Inr \<lparr>uuid = ''V1'', path = ''V1''\<rparr> \<and>
   getVolume (fst (listBucket \<lparr>bucketName = ''b'', prefix = ''snap/'', diffs = None, vols = None\<rparr>
                 [Inr \<lparr>key_name = ''snap/V2/V1'', key_size = 1048576\<rparr>,
                  Inr \<lparr>key_name = ''snap/V1/None'', key_size = 2097152\<rparr>])) ''V2'' =
     Inr \<lparr>uuid = ''V2'', path = ''V2''\<rparr>"
proof -
  let ?d1 = "\<lparr>d_uuid = ''V2'', d_previous = Some ''V1'', d_diffSink = 0\<rparr>"
  let ?d2 = "\<lparr>d_uuid = ''V1'', d_previous = None, d_diffSink = 0\<rparr>"
  have l: "regex_literal ''snap/''" by (simp add: regex_literal_def)
  have u1: "CHR ''/'' \<notin> set (d_uuid ?d1)" and u2: "CHR ''/'' \<notin> set (d_uuid ?d2)" by simp_all
  have f1: "CHR 0x0A \<notin> set (fmt_s (d_previous ?d1))"
    and f2: "CHR 0x0A \<notin> set (fmt_s (d_previous ?d2))" by (simp_all add: fmt_s_def)
  have n1: "objectName ''snap/'' ?d1 = ''snap/V2/V1''"
    and n2: "objectName ''snap/'' ?d2 = ''snap/V1/None''" by (simp_all add: objectName_def fmt_s_def)
  have p1: "parseKey ''snap/'' \<lparr>key_name = ''snap/V2/V1'', key_size = 1048576\<rparr> =
      Inr \<lparr>diff_from = Some ''V1'', diff_to = ''V2'', diff_size = 1, diff_path = ''V2''\<rparr>"
    using n1 object_name_roundtrip [OF l u1 f1, of 1048576] by (simp add: fmt_s_def)
  have p2: "parseKey ''snap/'' \<lparr>key_name = ''snap/V1/None'', key_size = 2097152\<rparr> =
      Inr \<lparr>diff_from = None, diff_to = ''V1'', diff_size = 2, diff_path = ''V1''\<rparr>"
    using n2 object_name_roundtrip [OF l u2 f2, of 2097152] by (simp add: fmt_s_def)
  show ?thesis
    using l n1 n2 by (simp add: p1 p2 listBucket_def getVolume_def volsOf_def)
qed

subsection \<open>Volumes\<close>

lemma volsOf_fold:
  "fold (\<lambda>d m. m(diff_to d \<mapsto> \<lparr>uuid = diff_to d, path = diff_to d\<rparr>)) ds m0 u =
     (if u \<in> diff_to ` set ds then Some \<lparr>uuid = u, path = u\<rparr> else m0 u)"
  by (induction ds arbitrary: m0) auto

lemma volsOf_apply:
  "volsOf ds u = (if u \<in> diff_to ` set ds then Some \<lparr>uuid = u, path = u\<rparr> else None)"
  by (simp add: volsOf_def volsOf_fold)

lemma ran_volsOf: "ran (volsOf ds) = (\<lambda>u. \<lparr>uuid = u, path = u\<rparr>) ` diff_to ` set ds"
  by (auto simp: ran_def volsOf_apply split: if_splits)

text \<open>
  Claim C9. After a listing that completes, \<open>listVolumes\<close> returns volumes whose
  identifiers are exactly the \<open>to\<close> identifiers of the listed diffs, one volume for each
  (no two of them share an identifier, however many diffs target it); for an identifier
  that is the \<open>to\<close> of no diff, so also for one that occurs only as a \<open>from\<close>, no volume
  is returned and \<open>getVolume\<close> raises \<open>KeyError\<close>.
\<close>

theorem volumes_of_listing:
  assumes "listBucket s ks = (s', None)"
  shows "\<exists>ds V. diffs s' = Some ds \<and> listVolumes s' = Inr V \<and>
           uuid ` V = diff_to ` set ds \<and> inj_on uuid V \<and>
           (\<forall>u. u \<notin> diff_to ` set ds \<longrightarrow> getVolume s' u = Inl KeyError)"
proof -
  from assms obtain ds where s': "s' = s\<lparr>diffs := Some ds, vols := Some (volsOf ds)\<rparr>"
    by (auto simp: listBucket_def split: prod.splits option.splits)
  have "uuid ` ran (volsOf ds) = diff_to ` set ds"
    by (auto simp: ran_volsOf image_iff)
  moreover have "inj_on uuid (ran (volsOf ds))"
    by (auto simp: ran_volsOf inj_on_def)
  moreover have "\<forall>u. u \<notin> diff_to ` set ds \<longrightarrow> getVolume s' u = Inl KeyError"
    using s' by (simp add: getVolume_def volsOf_apply)
  ultimately show ?thesis using s' by (simp add: listVolumes_def)
qed

theorem volumes_of_listing_witness:
  "listBucket \<lparr>bucketName = ''b'', prefix = ''snap/'', diffs = None, vols = None\<rparr>
     [Inr \<lparr>key_name = ''snap/V2/V1'', key_size = 1048576\<rparr>,
      Inr \<lparr>key_name = ''snap/V2/V0'', key_size = 2097152\<rparr>,
      Inr \<lparr>key_name = ''snap/V1/None'', key_size = 3145728\<rparr>] =
     (\<lparr>bucketName = ''b'', prefix = ''snap/'',
       diffs = Some [\<lparr>diff_from = Some ''V1'', diff_to = ''V2'', diff_size = 1, diff_path = ''V2''\<rparr>,
                     \<lparr>diff_from = Some ''V0'', diff_to = ''V2'', diff_size = 2, diff_path = ''V2''\<rparr>,
                     \<lparr>diff_from = None, diff_to = ''V1'', diff_size = 3, diff_path = ''V1''\<rparr>],
       vols = Some (volsOf
                    [\<lparr>diff_from = Some ''V1'', diff_to = ''V2'', diff_size = 1, diff_path = ''V2''\<rparr>,
                     \<lparr>diff_from = Some ''V0'', diff_to = ''V2'', diff_size = 2, diff_path = ''V2''\<rparr>,
                     \<lparr>diff_from = None, diff_to = ''V1'', diff_size = 3, diff_path = ''V1''\<rparr>])\<rparr>,
      None) \<and>
   getVolume
     \<lparr>bucketName = ''b'', prefix = ''snap/'',
       diffs = Some [\<lparr>diff_from = Some ''V1'', diff_to = ''V2'', diff_size = 1, diff_path = ''V2''\<rparr>,
                     \<lparr>diff_from = Some ''V0'', diff_to = ''V2'', diff_size = 2, diff_path = ''V2''\<rparr>,
                     \<lparr>diff_from = None, diff_to = ''V1'', diff_size = 3, diff_path = ''V1''\<rparr>],
       vols = Some (volsOf
                    [\<lparr>diff_from = Some ''V1'', diff_to = ''V2'', diff_size = 1, diff_path = ''V2''\<rparr>,
                     \<lparr>diff_from = Some ''V0'', diff_to = ''V2'', diff_size = 2, diff_path = ''V2''\<rparr>,
                     \<lparr>diff_from = None, diff_to = ''V1'', diff_size = 3, diff_path = ''V1''\<rparr>])\<rparr>
     ''V0'' = Inl KeyError \<and>
   (\<exists>V. listVolumes
     \<lparr>bucketName = ''b'', prefix = ''snap/'',
       diffs = Some [\<lparr>diff_from = Some ''V1'', diff_to = ''V2'', diff_size = 1, diff_path = ''V2''\<rparr>,
                     \<lparr>diff_from = Some ''V0'', diff_to = ''V2'', diff_size = 2, diff_path = ''V2''\<rparr>,
                     \<lparr>diff_from = None, diff_to = ''V1'', diff_size = 3, diff_path = ''V1''\<rparr>],
       vols = Some (volsOf
                    [\<lparr>diff_from = Some ''V1'', diff_to = ''V2'', diff_size = 1, diff_path = ''V2''\<rparr>,
                     \<lparr>diff_from = Some ''V0'', diff_to = ''V2'', diff_size = 2, diff_path = ''V2''\<rparr>,
                     \<lparr>diff_from = None, diff_to = ''V1'', diff_size = 3, diff_path = ''V1''\<rparr>])\<rparr> = Inr V \<and>
      uuid ` V = {''V2'', ''V1''} \<and> inj_on uuid V)"
proof -
  let ?s = "\<lparr>bucketName = ''b'', prefix = ''snap/'', diffs = None, vols = None\<rparr>"
  let ?ks = "[Inr \<lparr>key_name = ''snap/V2/V1'', key_size = 1048576\<rparr>,
      Inr \<lparr>key_name = ''snap/V2/V0'', key_size = 2097152\<rparr>,
      Inr \<lparr>key_name = ''snap/V1/None'', key_size = 3145728\<rparr>]"
  let ?ds = "[\<lparr>diff_from = Some ''V1'', diff_to = ''V2'', diff_size = 1, diff_path = ''V2''\<rparr>,
              \<lparr>diff_from = Some ''V0'', diff_to = ''V2'', diff_size = 2, diff_path = ''V2''\<rparr>,
              \<lparr>diff_from = None, diff_to = ''V1'', diff_size = 3, diff_path = ''V1''\<rparr>]"
  let ?s' = "\<lparr>bucketName = ''b'', prefix = ''snap/'', diffs = Some ?ds, vols = Some (volsOf ?ds)\<rparr>"
  have h: "listBucket ?s ?ks = (?s', None)"
    by (simp add: listBucket_def parseKey_def pattern_match_def match_from_def)
  from volumes_of_listing [OF h] obtain ds V where
    d: "diffs ?s' = Some ds" and v: "listVolumes ?s' = Inr V" and i: "uuid ` V = diff_to ` set ds"
    and j: "inj_on uuid V"
    and g: "\<forall>u. u \<notin> diff_to ` set ds \<longrightarrow> getVolume ?s' u = Inl KeyError"
    by (elim exE conjE)
  from d have ds: "ds = ?ds" by simp
  from g ds have "getVolume ?s' ''V0'' = Inl KeyError" by simp
  moreover from v i j ds have "\<exists>V. listVolumes ?s' = Inr V \<and> uuid ` V = {''V2'', ''V1''} \<and> inj_on uuid V"
    by (intro exI[of _ V]) simp
  ultimately show ?thesis using h by (intro conjI)
qed

subsection \<open>The upload\<close>

lemma parts_append: "parts (xs @ ys) = parts xs @ parts ys"
  by (induction xs rule: parts.induct) auto

lemma upto_snoc: "c \<le> c' \<Longrightarrow> [c + 1..c'] @ [c' + 1] = [c + 1..c' + 1]"
  by (simp add: upto_rec2)

lemma uploadLoop_inv:
  assumes "uploadLoop env strm u tr = (u', tr', r)" and "uploader u" and "chunkCount u = Some c"
  shows "\<exists>c'. chunkCount u' = Some c' \<and> c \<le> c' \<and> uploader u' \<and> keyName u' = keyName u \<and>
           parts tr' = parts tr @ [c + 1..c'] \<and>
           count_list tr' Complete = count_list tr Complete \<and>
           count_list tr' Cancel = count_list tr Cancel"
  using assms
proof (induction env strm u tr arbitrary: c rule: uploadLoop.induct)
  case (1 env u tr)
  then show ?case by (auto simp: parts_append)
next
  case (2 env e rs u tr)
  then show ?case by (auto simp: parts_append)
next
  case (3 env data rs u tr)
  show ?case
  proof (cases "data = []")
    case True
    with 3 show ?thesis by (auto simp: parts_append)
  next
    case False
    let ?u1 = "u\<lparr>chunkCount := Some (c + 1)\<rparr>"
    let ?tr1 = "tr @ [Read] @ [UploadPart (c + 1) data]"
    have up: "Uploader_upload env u (tr @ [Read]) data = (?u1, ?tr1, upload_result env (c + 1) data)"
      using "3.prems" by (simp add: Uploader_upload_def Let_def)
    show ?thesis
    proof (cases "upload_result env (c + 1) data")
      case None
      with up False "3.prems" have l: "uploadLoop env rs ?u1 ?tr1 = (u', tr', r)" by simp
      have "\<exists>c'. chunkCount u' = Some c' \<and> c + 1 \<le> c' \<and> uploader u' \<and> keyName u' = keyName ?u1 \<and>
           parts tr' = parts ?tr1 @ [c + 1 + 1..c'] \<and>
           count_list tr' Complete = count_list ?tr1 Complete \<and>
           count_list tr' Cancel = count_list ?tr1 Cancel"
        using "3.IH"[OF False up[symmetric] refl None l, of "c + 1"] "3.prems" by simp
      then obtain c' where c': "chunkCount u' = Some c'" "c + 1 \<le> c'" "uploader u'" "keyName u' = keyName u"
          "parts tr' = parts ?tr1 @ [c + 1 + 1..c']"
          "count_list tr' Complete = count_list tr Complete"
          "count_list tr' Cancel = count_list tr Cancel"
        by auto
      have "parts ?tr1 @ [c + 1 + 1..c'] = parts tr @ [c + 1..c']"
        using c'(2) by (simp add: parts_append upto_rec1[of "c + 1" c'])
      with c' show ?thesis by auto
    next
      case (Some e)
      with up False "3.prems" have "u' = ?u1" "tr' = ?tr1" by auto
      then show ?thesis using "3.prems" by (auto simp: parts_append)
    qed
  qed
qed


lemma uploadLoop_fails:
  assumes "uploader u" and "chunkCount u = Some c"
    and "\<forall>b \<in> set cs. b \<noteq> []" and "b \<noteq> []"
    and "\<forall>i < length cs. upload_result env (c + int i + 1) (cs ! i) = None"
    and "upload_result env (c + int (length cs) + 1) b = Some e"
  shows "\<exists>u' tr'. uploadLoop env (map Inr cs @ Inr b # rest) u tr = (u', tr', Some e)"
  using assms
proof (induction cs arbitrary: u tr c)
  case Nil
  then show ?case by (simp add: Uploader_upload_def Let_def)
next
  case (Cons a cs)
  let ?u1 = "u\<lparr>chunkCount := Some (c + 1)\<rparr>"
  have a: "a \<noteq> []" using Cons.prems(3) by simp
  have r0: "upload_result env (c + 1) a = None" using Cons.prems(5) by fastforce
  have up: "Uploader_upload env u (tr @ [Read]) a = (?u1, tr @ [Read] @ [UploadPart (c + 1) a], None)"
    using Cons.prems(1,2) r0 by (simp add: Uploader_upload_def Let_def)
  have step: "\<forall>i < length cs. upload_result env (c + 1 + int i + 1) (cs ! i) = None"
  proof (intro allI impI)
    fix i assume "i < length cs"
    then have "upload_result env (c + int (Suc i) + 1) ((a # cs) ! Suc i) = None"
      using Cons.prems(5) by (metis Suc_less_eq length_Cons)
    then show "upload_result env (c + 1 + int i + 1) (cs ! i) = None"
      by (simp add: add.commute add.left_commute)
  qed
  have last: "upload_result env (c + 1 + int (length cs) + 1) b = Some e"
    using Cons.prems(6) by (simp add: add.commute add.left_commute)
  have "\<exists>u' tr'. uploadLoop env (map Inr cs @ Inr b # rest) ?u1 (tr @ [Read] @ [UploadPart (c + 1) a]) = (u', tr', Some e)"
    using Cons.IH[of ?u1 "c + 1", OF _ _ _ Cons.prems(4) step last] Cons.prems(1,3) by simp
  then show ?case using a up by simp
qed

lemma uploadLoop_succeeds:
  assumes "uploader u" and "chunkCount u = Some c"
    and "\<forall>b \<in> set cs. b \<noteq> []" and "exhausted rest"
    and "\<forall>i < length cs. upload_result env (c + int i + 1) (cs ! i) = None"
  shows "\<exists>u' tr'. uploadLoop env (map Inr cs @ rest) u tr = (u', tr', None)"
  using assms
proof (induction cs arbitrary: u tr c)
  case Nil
  then show ?case by (cases rest) (auto simp: exhausted_def)
next
  case (Cons a cs)
  let ?u1 = "u\<lparr>chunkCount := Some (c + 1)\<rparr>"
  have a: "a \<noteq> []" using Cons.prems(3) by simp
  have r0: "upload_result env (c + 1) a = None" using Cons.prems(5) by fastforce
  have up: "Uploader_upload env u (tr @ [Read]) a = (?u1, tr @ [Read] @ [UploadPart (c + 1) a], None)"
    using Cons.prems(1,2) r0 by (simp add: Uploader_upload_def Let_def)
  have step: "\<forall>i < length cs. upload_result env (c + 1 + int i + 1) (cs ! i) = None"
  proof (intro allI impI)
    fix i assume "i < length cs"
    then have "upload_result env (c + int (Suc i) + 1) ((a # cs) ! Suc i) = None"
      using Cons.prems(5) by (metis Suc_less_eq length_Cons)
    then show "upload_result env (c + 1 + int i + 1) (cs ! i) = None"
      by (simp add: add.commute add.left_commute)
  qed
  have "\<exists>u' tr'. uploadLoop env (map Inr cs @ rest) ?u1 (tr @ [Read] @ [UploadPart (c + 1) a]) = (u', tr', None)"
    using Cons.IH[of ?u1 "c + 1", OF _ _ _ Cons.prems(4) step] Cons.prems(1,3) by simp
  then show ?case using a up by simp
qed

lemma upload_open:
  assumes "initiate_result env = None"
  shows "\<exists>u' tr' exc. uploadLoop env strm (Uploader_init k\<lparr>uploader := True, chunkCount := Some 0\<rparr>) (tr @ [Initiate k]) = (u', tr', exc) \<and>
           uploader u' \<and> parts tr' = parts tr @ [1..int (length (parts tr')) - int (length (parts tr))] \<and>
           count_list tr' Complete = count_list tr Complete \<and> count_list tr' Cancel = count_list tr Cancel \<and>
           upload env strm k tr = snd (Uploader_exit env u' tr' exc)"
proof -
  let ?u0 = "Uploader_init k\<lparr>uploader := True, chunkCount := Some 0\<rparr>"
  obtain u' tr' exc where l: "uploadLoop env strm ?u0 (tr @ [Initiate k]) = (u', tr', exc)"
    by (metis prod_cases3)
  from uploadLoop_inv[OF l, of 0] obtain c' where c': "0 \<le> c'" "uploader u'"
      "parts tr' = parts (tr @ [Initiate k]) @ [0 + 1..c']"
      "count_list tr' Complete = count_list (tr @ [Initiate k]) Complete"
      "count_list tr' Cancel = count_list (tr @ [Initiate k]) Cancel"
    by (auto simp: Uploader_init_def)
  have len: "int (length (parts tr')) - int (length (parts tr)) = c'"
    using c'(1,3) by (simp add: parts_append)
  have "upload env strm k tr = snd (Uploader_exit env u' tr' exc)"
    using assms l by (simp add: upload_def Uploader_enter_def Uploader_init_def split: prod.splits)
  with l c' len show ?thesis by (simp add: parts_append)
qed

text \<open>
  Claim C10. Within one upload, the chunk uploads carry the part numbers 1, 2, 3, ...
  in the order they are made: whatever the stream and the remote side do, the part
  numbers in the log of calls are exactly \<open>1..n\<close>, where \<open>n\<close> is the number of chunk
  uploads made.
\<close>

theorem part_numbers_consecutive:
  "parts (fst (upload env strm k [])) = [1..int (length (parts (fst (upload env strm k []))))]"
proof (cases "initiate_result env")
  case (Some e)
  then show ?thesis by (simp add: upload_def Uploader_enter_def)
next
  case None
  from upload_open[OF None, of strm k "[]"] obtain u' tr' exc where
    h: "parts tr' = [1..int (length (parts tr'))]"
       "upload env strm k [] = snd (Uploader_exit env u' tr' exc)"
       "uploader u'"
    by auto
  have "parts (fst (upload env strm k [])) = parts tr'"
    using h(2,3) by (auto simp: Uploader_exit_def parts_append split: option.splits)
  with h(1) show ?thesis by simp
qed


theorem part_numbers_consecutive_witness:
  "parts (fst (upload
      \<lparr>initiate_result = None, upload_result = (\<lambda>n b. if n = 3 then Some (Raised 7) else None),
       complete_result = None, cancel_result = None\<rparr>
      [Inr [1], Inr [2, 2], Inr [3], Inr [4]] ''k'' [])) = [1, 2, 3] \<and>
   fst (upload
      \<lparr>initiate_result = None, upload_result = (\<lambda>n b. if n = 3 then Some (Raised 7) else None),
       complete_result = None, cancel_result = None\<rparr>
      [Inr [1], Inr [2, 2], Inr [3], Inr [4]] ''k'' []) =
     [Initiate ''k'', Read, UploadPart 1 [1], Read, UploadPart 2 [2, 2], Read, UploadPart 3 [3],
      Cancel]"
proof -
  let ?env = "\<lparr>initiate_result = None,
      upload_result = (\<lambda>n b. if n = (3::int) then Some (Raised 7) else None),
      complete_result = None, cancel_result = None\<rparr>"
  let ?strm = "[Inr [1], Inr [2, 2], Inr [3], Inr [4]] :: stream"
  have ev: "fst (upload ?env ?strm ''k'' []) =
     [Initiate ''k'', Read, UploadPart 1 [1], Read, UploadPart 2 [2, 2], Read, UploadPart 3 [3],
      Cancel]"
    by (simp add: upload_def Uploader_enter_def Uploader_init_def Uploader_upload_def
        Uploader_exit_def Let_def)
  have "length (parts (fst (upload ?env ?strm ''k'' []))) = 3"
    by (simp add: ev)
  with part_numbers_consecutive [of ?env ?strm "''k''"]
  have "parts (fst (upload ?env ?strm ''k'' [])) = [1..3]" by simp
  also have "[1..3] = [1, 2, 3 :: int]" by (simp add: upto_rec1)
  finally show ?thesis using ev by (intro conjI)
qed

text \<open>
  Claim C2, as the specification states it, fails in its last part. The first chunk
  upload raises the exception number 7, and \<open>cancel_upload\<close>, called by \<open>__exit__\<close>
  for that exception, raises the exception number 3 itself: the caller sees number 3,
  not the exception that triggered the abort.
\<close>

theorem transfer_atomicity_counterexample:
  "upload
     \<lparr>initiate_result = None, upload_result = (\<lambda>n b. Some (Raised 7)),
      complete_result = None, cancel_result = Some (Raised 3)\<rparr>
     [Inr [1]] ''k'' [] =
     ([Initiate ''k'', Read, UploadPart 1 [1], Cancel], Some (Raised 3)) \<and>
   upload_result
     \<lparr>initiate_result = None, upload_result = (\<lambda>n b. Some (Raised 7)),
      complete_result = None, cancel_result = Some (Raised 3)\<rparr> 1 [1] = Some (Raised 7) \<and>
   Raised 3 \<noteq> Raised 7"
  by (simp add: upload_def Uploader_enter_def Uploader_init_def Uploader_upload_def
      Uploader_exit_def Let_def)

text \<open>
  Claim C2, amended. Take an upload that was begun, a stream whose first reads return the
  non-empty chunks \<open>cs\<close>, and a remote side that accepts each of them under its part
  number.
  \<^item> If the next read returns a non-empty chunk whose upload raises \<open>e\<close>, then
    \<open>cancel_upload\<close> is called exactly once, \<open>complete_upload\<close> is not called, and the
    caller sees \<open>e\<close> when \<open>cancel_upload\<close> returns, and the exception of
    \<open>cancel_upload\<close> when it raises one.
  \<^item> If instead the stream is exhausted after \<open>cs\<close>, then \<open>complete_upload\<close> is called
    exactly once, \<open>cancel_upload\<close> is not called, and the caller sees what
    \<open>complete_upload\<close> did.
\<close>

theorem transfer_atomicity:
  assumes "initiate_result env = None" and "\<forall>c \<in> set cs. c \<noteq> []"
    and "\<forall>i < length cs. upload_result env (int i + 1) (cs ! i) = None"
  shows "(b \<noteq> [] \<and> upload_result env (int (length cs) + 1) b = Some e \<longrightarrow>
            count_list (fst (upload env (map Inr cs @ Inr b # rest) k [])) Cancel = 1 \<and>
            count_list (fst (upload env (map Inr cs @ Inr b # rest) k [])) Complete = 0 \<and>
            snd (upload env (map Inr cs @ Inr b # rest) k []) =
              Some (case cancel_result env of None \<Rightarrow> e | Some e' \<Rightarrow> e')) \<and>
         (exhausted rest \<longrightarrow>
            count_list (fst (upload env (map Inr cs @ rest) k [])) Complete = 1 \<and>
            count_list (fst (upload env (map Inr cs @ rest) k [])) Cancel = 0 \<and>
            snd (upload env (map Inr cs @ rest) k []) = complete_result env)"
proof (intro conjI impI)
  assume f: "b \<noteq> [] \<and> upload_result env (int (length cs) + 1) b = Some e"
  let ?strm = "map Inr cs @ Inr b # rest"
  let ?u0 = "Uploader_init k\<lparr>uploader := True, chunkCount := Some 0\<rparr>"
  from upload_open[OF assms(1), of ?strm k "[]"] obtain u' tr' exc where
    h: "uploadLoop env ?strm ?u0 ([] @ [Initiate k]) = (u', tr', exc)" "uploader u'"
       "count_list tr' Complete = 0" "count_list tr' Cancel = 0"
       "upload env ?strm k [] = snd (Uploader_exit env u' tr' exc)"
    by auto
  have "\<exists>u' tr'. uploadLoop env ?strm ?u0 ([] @ [Initiate k]) = (u', tr', Some e)"
    using assms(2,3) f by (intro uploadLoop_fails[of ?u0 0]) (simp_all add: Uploader_init_def)
  with h(1) have exc: "exc = Some e" by auto
  show "count_list (fst (upload env ?strm k [])) Cancel = 1"
    using h(2,4,5) exc by (simp add: Uploader_exit_def split: option.splits)
  show "count_list (fst (upload env ?strm k [])) Complete = 0"
    using h(2,3,5) exc by (simp add: Uploader_exit_def split: option.splits)
  show "snd (upload env ?strm k []) = Some (case cancel_result env of None \<Rightarrow> e | Some e' \<Rightarrow> e')"
    using h(2,5) exc by (simp add: Uploader_exit_def split: option.splits)
next
  assume x: "exhausted rest"
  let ?strm = "map Inr cs @ rest"
  let ?u0 = "Uploader_init k\<lparr>uploader := True, chunkCount := Some 0\<rparr>"
  from upload_open[OF assms(1), of ?strm k "[]"] obtain u' tr' exc where
    h: "uploadLoop env ?strm ?u0 ([] @ [Initiate k]) = (u', tr', exc)" "uploader u'"
       "count_list tr' Complete = 0" "count_list tr' Cancel = 0"
       "upload env ?strm k [] = snd (Uploader_exit env u' tr' exc)"
    by auto
  have "\<exists>u' tr'. uploadLoop env ?strm ?u0 ([] @ [Initiate k]) = (u', tr', None)"
    using assms(2,3) x by (intro uploadLoop_succeeds[of ?u0 0]) (simp_all add: Uploader_init_def)
  with h(1) have exc: "exc = None" by auto
  show "count_list (fst (upload env ?strm k [])) Complete = 1"
    using h(2,3,5) exc by (simp add: Uploader_exit_def split: option.splits)
  show "count_list (fst (upload env ?strm k [])) Cancel = 0"
    using h(2,4,5) exc by (simp add: Uploader_exit_def split: option.splits)
  show "snd (upload env ?strm k []) = complete_result env"
    using h(2,5) exc by (simp add: Uploader_exit_def split: option.splits)
qed

theorem transfer_atomicity_witness:
  "upload
     \<lparr>initiate_result = None, upload_result = (\<lambda>n b. if n = 2 then Some (Raised 7) else None),
      complete_result = None, cancel_result = None\<rparr>
     [Inr [1], Inr [2], Inr [3]] ''k'' [] =
     ([Initiate ''k'', Read, UploadPart 1 [1], Read, UploadPart 2 [2], Cancel], Some (Raised 7)) \<and>
   upload
     \<lparr>initiate_result = None, upload_result = (\<lambda>n b. if n = 2 then Some (Raised 7) else None),
      complete_result = None, cancel_result = None\<rparr>
     [Inr [1]] ''k'' [] =
     ([Initiate ''k'', Read, UploadPart 1 [1], Read, Complete], None) \<and>
   count_list (fst (upload
     \<lparr>initiate_result = None, upload_result = (\<lambda>n b. if n = 2 then Some (Raised 7) else None),
      complete_result = None, cancel_result = None\<rparr>
     [Inr [1], Inr [2], Inr [3]] ''k'' [])) Cancel = 1 \<and>
   count_list (fst (upload
     \<lparr>initiate_result = None, upload_result = (\<lambda>n b. if n = 2 then Some (Raised 7) else None),
      complete_result = None, cancel_result = None\<rparr>
     [Inr [1], Inr [2], Inr [3]] ''k'' [])) Complete = 0 \<and>
   count_list (fst (upload
     \<lparr>initiate_result = None, upload_result = (\<lambda>n b. if n = 2 then Some (Raised 7) else None),
      complete_result = None, cancel_result = None\<rparr>
     [Inr [1]] ''k'' [])) Complete = 1 \<and>
   count_list (fst (upload
     \<lparr>initiate_result = None, upload_result = (\<lambda>n b. if n = 2 then Some (Raised 7) else None),
      complete_result = None, cancel_result = None\<rparr>
     [Inr [1]] ''k'' [])) Cancel = 0"
proof -
  let ?env = "\<lparr>initiate_result = None,
      upload_result = (\<lambda>n b. if n = (2::int) then Some (Raised 7) else None),
      complete_result = None, cancel_result = None\<rparr>"
  have i: "initiate_result ?env = None" by simp
  have n: "\<forall>c \<in> set [[1 :: 8 word]]. c \<noteq> []" by simp
  have u: "\<forall>i < length [[1 :: 8 word]]. upload_result ?env (int i + 1) ([[1]] ! i) = None"
    by simp
  have c: "cancel_result ?env = None" by simp
  have x: "exhausted []" by (simp add: exhausted_def)
  have b: "[2 :: 8 word] \<noteq> [] \<and> upload_result ?env (int (length [[1 :: 8 word]]) + 1) [2] = Some (Raised 7)"
    by simp
  have ev: "upload ?env [Inr [1], Inr [2], Inr [3]] ''k'' [] =
     ([Initiate ''k'', Read, UploadPart 1 [1], Read, UploadPart 2 [2], Cancel], Some (Raised 7)) \<and>
   upload ?env [Inr [1]] ''k'' [] =
     ([Initiate ''k'', Read, UploadPart 1 [1], Read, Complete], None)"
    by (simp add: upload_def Uploader_enter_def Uploader_init_def Uploader_upload_def
        Uploader_exit_def Let_def)
  show ?thesis
    using transfer_atomicity [OF i n u, of "[2]" "Raised 7" "[Inr [3]]" "''k''"] b c
      transfer_atomicity [OF i n u, of "[2]" "Raised 7" "[]" "''k''"] x ev
    by simp
qed

section \<open>Properties of the ioctl utilities\<close>

subsection \<open>Operation codes\<close>

lemma masks: "NRMASK = mask 8" "TYPEMASK = mask 8" "SIZEMASK = mask 14" "DIRMASK = mask 2"
  by (simp_all add: NRMASK_def TYPEMASK_def SIZEMASK_def DIRMASK_def NRBITS_def TYPEBITS_def
      SIZEBITS_def DIRBITS_def mask_eq_exp_minus_1 push_bit_eq_mult)

lemma shifts: "NRSHIFT = 0" "TYPESHIFT = 8" "SIZESHIFT = 16" "DIRSHIFT = 30"
  by (simp_all add: NRSHIFT_def TYPESHIFT_def SIZESHIFT_def DIRSHIFT_def NRBITS_def TYPEBITS_def
      SIZEBITS_def)

lemma ioc_fields:
  "drop_bit DIRSHIFT (iocNumber (take_bit 2 d) (take_bit 8 t) (take_bit 8 n) (take_bit 14 s)) AND DIRMASK = take_bit 2 d"
  "drop_bit TYPESHIFT (iocNumber (take_bit 2 d) (take_bit 8 t) (take_bit 8 n) (take_bit 14 s)) AND TYPEMASK = take_bit 8 t"
  "drop_bit NRSHIFT (iocNumber (take_bit 2 d) (take_bit 8 t) (take_bit 8 n) (take_bit 14 s)) AND NRMASK = take_bit 8 n"
  "drop_bit SIZESHIFT (iocNumber (take_bit 2 d) (take_bit 8 t) (take_bit 8 n) (take_bit 14 s)) AND SIZEMASK = take_bit 14 s"
  unfolding iocNumber_def masks shifts
  by (rule bit_eqI; auto simp: bit_simps)+


lemma in_width_take_bit: "in_width w x \<Longrightarrow> take_bit w x = x"
  by (simp add: in_width_def take_bit_int_eq_self)

text \<open>
  Claim C4. For a direction of 2 bits, a type of 8 bits, an operation number of 8 bits
  and a size of 14 bits, each field is recovered from the operation code by shifting
  right by the field's offset and masking with the field's mask, and two tuples of
  fields with the same operation code are the same tuple.
\<close>

theorem operation_code_fields:
  assumes "in_width DIRBITS d" and "in_width TYPEBITS t" and "in_width NRBITS n"
    and "in_width SIZEBITS s"
  shows "drop_bit DIRSHIFT (iocNumber d t n s) AND DIRMASK = d \<and>
         drop_bit TYPESHIFT (iocNumber d t n s) AND TYPEMASK = t \<and>
         drop_bit NRSHIFT (iocNumber d t n s) AND NRMASK = n \<and>
         drop_bit SIZESHIFT (iocNumber d t n s) AND SIZEMASK = s \<and>
         (in_width DIRBITS d' \<and> in_width TYPEBITS t' \<and> in_width NRBITS n' \<and>
          in_width SIZEBITS s' \<and> iocNumber d' t' n' s' = iocNumber d t n s \<longrightarrow>
            d' = d \<and> t' = t \<and> n' = n \<and> s' = s)"
proof -
  have w: "take_bit 2 d = d" "take_bit 8 t = t" "take_bit 8 n = n" "take_bit 14 s = s"
    using assms by (simp_all add: in_width_def take_bit_int_eq_self DIRBITS_def TYPEBITS_def NRBITS_def SIZEBITS_def)
  have r: "drop_bit DIRSHIFT (iocNumber d t n s) AND DIRMASK = d"
    "drop_bit TYPESHIFT (iocNumber d t n s) AND TYPEMASK = t"
    "drop_bit NRSHIFT (iocNumber d t n s) AND NRMASK = n"
    "drop_bit SIZESHIFT (iocNumber d t n s) AND SIZEMASK = s"
    using ioc_fields [of d t n s] by (simp_all add: w)
  have "d' = d \<and> t' = t \<and> n' = n \<and> s' = s"
    if v: "in_width DIRBITS d'" "in_width TYPEBITS t'" "in_width NRBITS n'" "in_width SIZEBITS s'"
      and e: "iocNumber d' t' n' s' = iocNumber d t n s"
  proof -
    have w': "take_bit 2 d' = d'" "take_bit 8 t' = t'" "take_bit 8 n' = n'" "take_bit 14 s' = s'"
      using v by (simp_all add: in_width_def take_bit_int_eq_self DIRBITS_def TYPEBITS_def NRBITS_def SIZEBITS_def)
    have r': "drop_bit DIRSHIFT (iocNumber d' t' n' s') AND DIRMASK = d'"
      "drop_bit TYPESHIFT (iocNumber d' t' n' s') AND TYPEMASK = t'"
      "drop_bit NRSHIFT (iocNumber d' t' n' s') AND NRMASK = n'"
      "drop_bit SIZESHIFT (iocNumber d' t' n' s') AND SIZEMASK = s'"
      using ioc_fields [of d' t' n' s'] by (simp_all add: w')
    show ?thesis using r r' e by simp
  qed
  with r show ?thesis by blast
qed

theorem operation_code_fields_witness:
  "in_width DIRBITS 3 \<and> in_width TYPEBITS 148 \<and> in_width NRBITS 1 \<and> in_width SIZEBITS 4096 \<and>
   iocNumber 3 148 1 4096 = 3489698817 \<and>
   drop_bit DIRSHIFT 3489698817 AND DIRMASK = 3 \<and>
   drop_bit TYPESHIFT 3489698817 AND TYPEMASK = 148 \<and>
   drop_bit NRSHIFT 3489698817 AND NRMASK = 1 \<and>
   drop_bit SIZESHIFT 3489698817 AND SIZEMASK = 4096"
proof -
  have d: "in_width DIRBITS 3" and t: "in_width TYPEBITS 148" and n: "in_width NRBITS 1"
    and s: "in_width SIZEBITS 4096"
    by (simp_all add: in_width_def DIRBITS_def TYPEBITS_def NRBITS_def SIZEBITS_def)
  have v: "iocNumber 3 148 1 4096 = 3489698817"
    by (simp add: iocNumber_def shifts)
  show ?thesis
    using d t n s v operation_code_fields [OF d t n s, of 3 148 1 4096] by simp
qed

subsection \<open>The structure codec\<close>

lemma length_le_bytes: "length (le_bytes k n) = k"
  by (induction k arbitrary: n) auto

lemma le_int_le_bytes: "0 \<le> n \<Longrightarrow> n < 2 ^ (8 * k) \<Longrightarrow> le_int (le_bytes k n) = n"
proof (induction k arbitrary: n)
  case 0
  then show ?case by simp
next
  case (Suc k)
  have "n < 256 * 2 ^ (8 * k)" using Suc.prems(2) by (simp add: power_add)
  then have d: "n div 256 < 2 ^ (8 * k)" by (simp add: div_less_iff_less_mult)
  have "0 \<le> n div 256" using Suc.prems(1) by simp
  from Suc.IH[OF this d] have ih: "le_int (le_bytes k (n div 256)) = n div 256" .
  have "uint (word_of_int (n mod 256) :: 8 word) = n mod 256"
    by (simp add: uint_word_of_int)
  with ih show ?case by simp
qed

lemma pack_scalar_length: "pack_scalar c a = Inr b \<Longrightarrow> length b = std_size c"
  by (cases c; cases a) (auto simp: length_le_bytes split: if_splits)

lemma pack_items_length: "pack_items items args = Inr bs \<Longrightarrow> length bs = fmt_size items"
proof (induction items args arbitrary: bs rule: pack_items.induct)
  case (5 c "is" a as)
  then show ?case
    by (auto simp: fmt_size_def dest: pack_scalar_length split: sum.splits)
next
  case (6 n "is" a as)
  then show ?case by (auto simp: fmt_size_def split: sum.splits pyval.splits)
qed (auto simp: fmt_size_def split: sum.splits)

lemma pack_items_append:
  "pack_items i1 a1 = Inr b1 \<Longrightarrow> pack_items i2 a2 = Inr b2 \<Longrightarrow>
     pack_items (i1 @ i2) (a1 @ a2) = Inr (b1 @ b2)"
  by (induction i1 a1 arbitrary: b1 rule: pack_items.induct)
    (auto split: sum.splits pyval.splits)

lemma unpack_items_append:
  "length b1 = fmt_size i1 \<Longrightarrow>
     unpack_items (i1 @ i2) (b1 @ b2) = unpack_items i1 b1 @ unpack_items i2 b2"
proof (induction i1 b1 rule: unpack_items.induct)
  case (1 bs)
  then show ?case by (simp add: fmt_size_def)
next
  case (2 n "is" bs)
  then show ?case by (simp add: fmt_size_def)
next
  case (3 c "is" bs)
  then show ?case by (simp add: fmt_size_def)
next
  case (4 n "is" bs)
  then show ?case by (simp add: fmt_size_def)
qed

lemma utf8_dec_ascii:
  "list_all (\<lambda>x. unat x < 128) bs \<Longrightarrow> utf8_dec bs 0 0 128 191 = Inr (map unat bs)"
  by (induction bs) (auto simp: Let_def)

lemma unat_byte: "n < 256 \<Longrightarrow> unat (of_nat n :: 8 word) = n"
  by (simp add: unat_of_nat)

lemma unat_cont: "unat (cont n) = 128 + n mod 64"
proof -
  have "128 + n mod 64 < 256" by simp
  then show ?thesis unfolding cont_def by (rule unat_byte)
qed

lemma dec_lead1:
  "unat b = n \<Longrightarrow> n < 128 \<Longrightarrow>
   utf8_dec (b # bs) 0 0 128 191 =
     (case utf8_dec bs 0 0 128 191 of Inl e \<Rightarrow> Inl e | Inr cs \<Rightarrow> Inr (n # cs))"
  by simp

lemma dec_lead2:
  "unat b = 192 + a \<Longrightarrow> 2 \<le> a \<Longrightarrow> a < 32 \<Longrightarrow>
   utf8_dec (b # bs) 0 0 128 191 = utf8_dec bs 1 a 128 191"
  by simp

lemma dec_lead3:
  "unat b = 224 + a \<Longrightarrow> a < 16 \<Longrightarrow>
   utf8_dec (b # bs) 0 0 128 191 = utf8_dec bs 2 a (if a = 0 then 160 else 128) 191"
  by simp

lemma dec_lead4:
  "unat b = 240 + a \<Longrightarrow> a < 5 \<Longrightarrow>
   utf8_dec (b # bs) 0 0 128 191 =
     utf8_dec bs 3 a (if a = 0 then 144 else 128) (if a = 4 then 143 else 191)"
  by auto

lemma dec_cont3:
  "unat b = 128 + m \<Longrightarrow> lo \<le> 128 + m \<Longrightarrow> 128 + m \<le> hi \<Longrightarrow>
   utf8_dec (b # bs) 3 acc lo hi = utf8_dec bs 2 (acc * 64 + m) 128 191"
  by simp

lemma dec_cont2:
  "unat b = 128 + m \<Longrightarrow> lo \<le> 128 + m \<Longrightarrow> 128 + m \<le> hi \<Longrightarrow>
   utf8_dec (b # bs) 2 acc lo hi = utf8_dec bs 1 (acc * 64 + m) 128 191"
  by simp

lemma dec_cont1:
  "unat b = 128 + m \<Longrightarrow> m < 64 \<Longrightarrow>
   utf8_dec (b # bs) 1 acc 128 191 =
     (case utf8_dec bs 0 0 128 191 of Inl e \<Rightarrow> Inl e | Inr cs \<Rightarrow> Inr ((acc * 64 + m) # cs))"
  by (simp split: sum.splits)

lemma utf8_dec_char:
  assumes "c < 1114112"
  shows "utf8_dec (utf8_encode [c] @ bs) 0 0 128 191 =
     (case utf8_dec bs 0 0 128 191 of Inl e \<Rightarrow> Inl e | Inr cs \<Rightarrow> Inr (c # cs))"
proof -
  have m: "\<And>k :: nat. k mod 64 < 64" by simp
  consider "c < 128" | "128 \<le> c" "c < 2048" | "2048 \<le> c" "c < 65536" | "65536 \<le> c"
    by linarith
  then show ?thesis
  proof cases
    case 1
    then have e: "utf8_encode [c] @ bs = of_nat c # bs" by simp
    from 1 have "unat (of_nat c :: 8 word) = c" by (intro unat_byte) simp
    from dec_lead1[OF this 1] show ?thesis by (simp only: e)
  next
    case 2
    then have e: "utf8_encode [c] @ bs = of_nat (192 + c div 64) # cont c # bs"
      by (simp del: of_nat_add)
    from 2 have f: "unat (of_nat (192 + c div 64) :: 8 word) = 192 + c div 64"
      by (intro unat_byte) simp
    from 2 have r: "2 \<le> c div 64" "c div 64 < 32" by simp_all
    have a: "c div 64 * 64 + c mod 64 = c" by simp
    show ?thesis
      by (simp only: e dec_lead2[OF f r] dec_cont1[OF unat_cont m] a)
  next
    case 3
    then have e: "utf8_encode [c] @ bs =
        of_nat (224 + c div 4096) # cont (c div 64) # cont c # bs"
      by (simp del: of_nat_add)
    from 3 have f: "unat (of_nat (224 + c div 4096) :: 8 word) = 224 + c div 4096"
      by (intro unat_byte) simp
    from 3 have r: "c div 4096 < 16" by simp
    from 3 have lo: "(if c div 4096 = 0 then 160 else 128) \<le> 128 + c div 64 mod 64"
      by (auto simp: div_eq_0_iff)
    have hi: "128 + c div 64 mod 64 \<le> 191" using m[of "c div 64"] by simp
    have d: "c div 4096 = c div 64 div 64" by (simp add: div_mult2_eq[symmetric])
    have a: "(c div 4096 * 64 + c div 64 mod 64) * 64 + c mod 64 = c"
      by (simp only: d div_mult_mod_eq)
    show ?thesis
      by (simp only: e dec_lead3[OF f r] dec_cont2[OF unat_cont lo hi] dec_cont1[OF unat_cont m] a)
  next
    case 4
    then have e: "utf8_encode [c] @ bs =
        of_nat (240 + c div 262144) # cont (c div 4096) # cont (c div 64) # cont c # bs"
      by (simp del: of_nat_add)
    from assms have r: "c div 262144 < 5" by simp
    then have f: "unat (of_nat (240 + c div 262144) :: 8 word) = 240 + c div 262144"
      by (intro unat_byte) simp
    have d1: "c div 262144 = c div 4096 div 64" by (simp add: div_mult2_eq[symmetric])
    have d2: "c div 4096 = c div 64 div 64" by (simp add: div_mult2_eq[symmetric])
    have s: "c div 4096 div 64 * 64 + c div 4096 mod 64 = c div 4096"
      by (rule div_mult_mod_eq)
    from 4 have g: "16 \<le> c div 4096" by simp
    from assms have l: "c div 4096 < 272" by simp
    have lo: "(if c div 262144 = 0 then 144 else 128) \<le> 128 + c div 4096 mod 64"
      using s g by (simp add: d1)
    have hi: "128 + c div 4096 mod 64 \<le> (if c div 262144 = 4 then 143 else 191)"
    proof (cases "c div 4096 div 64 = 4")
      case True
      with s have "256 + c div 4096 mod 64 = c div 4096" by simp
      with l have "c div 4096 mod 64 < 16" by linarith
      with True show ?thesis by (simp add: d1)
    next
      case False
      with m[of "c div 4096"] show ?thesis by (simp add: d1)
    qed
    have lo2: "(128::nat) \<le> 128 + c div 64 mod 64" by simp
    have hi2: "128 + c div 64 mod 64 \<le> 191" using m[of "c div 64"] by simp
    have "(c div 262144 * 64 + c div 4096 mod 64) * 64 + c div 64 mod 64 = c div 64"
      by (simp only: d1 s) (simp only: d2 div_mult_mod_eq)
    then have a: "((c div 262144 * 64 + c div 4096 mod 64) * 64 + c div 64 mod 64) * 64 + c mod 64 = c"
      by (simp only: div_mult_mod_eq)
    show ?thesis
      by (simp only: e dec_lead4[OF f r] dec_cont3[OF unat_cont lo hi]
          dec_cont2[OF unat_cont lo2 hi2] dec_cont1[OF unat_cont m] a)
  qed
qed

lemma utf8_encode_Cons: "utf8_encode (c # cs) = utf8_encode [c] @ utf8_encode cs"
  by simp

lemma utf8_dec_encode:
  "list_all (\<lambda>c. c < 1114112) u \<Longrightarrow>
   utf8_dec (utf8_encode u @ bs) 0 0 128 191 =
     (case utf8_dec bs 0 0 128 191 of Inl e \<Rightarrow> Inl e | Inr cs \<Rightarrow> Inr (u @ cs))"
proof (induction u)
  case Nil
  show ?case by (simp split: sum.splits)
next
  case (Cons c u)
  then have c: "c < 1114112" and u: "list_all (\<lambda>c. c < 1114112) u" by simp_all
  have "utf8_dec (utf8_encode (c # u) @ bs) 0 0 128 191 =
      utf8_dec (utf8_encode [c] @ (utf8_encode u @ bs)) 0 0 128 191"
    by (simp only: utf8_encode_Cons[of c u] append_assoc)
  also have "\<dots> = (case utf8_dec (utf8_encode u @ bs) 0 0 128 191 of
      Inl e \<Rightarrow> Inl e | Inr cs \<Rightarrow> Inr (c # cs))"
    by (rule utf8_dec_char[OF c])
  also have "\<dots> = (case utf8_dec bs 0 0 128 191 of Inl e \<Rightarrow> Inl e | Inr cs \<Rightarrow> Inr ((c # u) @ cs))"
    by (simp only: Cons.IH[OF u]) (simp split: sum.splits)
  finally show ?case .
qed

lemma fit_bytes:
  "fit n u = Some u' \<Longrightarrow>
   take n (utf8_encode u @ [0]) @ replicate (n - length (utf8_encode u @ [0])) 0 =
     utf8_encode u' @ replicate (n - length (utf8_encode u')) 0"
proof (induction u arbitrary: n u')
  case Nil
  then show ?case by (cases n) simp_all
next
  case (Cons c u)
  let ?l = "length (utf8_encode [c])"
  show ?case
  proof (cases "?l \<le> n")
    case True
    with Cons.prems obtain v where v: "fit (n - ?l) u = Some v" and u': "u' = c # v"
      by (auto simp: Let_def)
    have t: "take n (utf8_encode (c # u) @ [0]) =
        utf8_encode [c] @ take (n - ?l) (utf8_encode u @ [0])"
      by (simp only: utf8_encode_Cons[of c u] append_assoc take_append take_all[OF True])
    have k: "n - length (utf8_encode (c # u) @ [0]) = (n - ?l) - length (utf8_encode u @ [0])"
      by (simp only: utf8_encode_Cons[of c u] length_append)
    have k': "n - length (utf8_encode (c # v)) = (n - ?l) - length (utf8_encode v)"
      by (simp only: utf8_encode_Cons[of c v] length_append)
    have "take n (utf8_encode (c # u) @ [0]) @ replicate (n - length (utf8_encode (c # u) @ [0])) 0 =
        utf8_encode [c] @ (take (n - ?l) (utf8_encode u @ [0]) @
          replicate ((n - ?l) - length (utf8_encode u @ [0])) 0)"
      by (simp only: t k append_assoc)
    also have "\<dots> = utf8_encode [c] @ (utf8_encode v @ replicate ((n - ?l) - length (utf8_encode v)) 0)"
      by (simp only: Cons.IH[OF v])
    also have "\<dots> = utf8_encode (c # v) @ replicate (n - length (utf8_encode (c # v))) 0"
      by (simp only: utf8_encode_Cons[of c v] append_assoc length_append diff_diff_left)
    finally show ?thesis by (simp only: u')
  next
    case False
    with Cons.prems have n: "n = 0" and u': "u' = []"
      by (auto simp: Let_def split: if_splits)
    then show ?thesis by simp
  qed
qed

lemma fit_all: "fit n u = Some u' \<Longrightarrow> list_all P u \<Longrightarrow> list_all P u'"
proof (induction u arbitrary: n u')
  case Nil
  then show ?case by simp
next
  case (Cons c u)
  then show ?case
    by (cases "length (utf8_encode [c]) \<le> n") (auto simp: Let_def split: if_splits)
qed

lemma takeWhile_stop:
  "takeWhile (\<lambda>c. c \<noteq> 0) (xs @ (0 :: 'a :: zero) # ys) = takeWhile (\<lambda>c. c \<noteq> 0) xs"
  by (induction xs) auto

lemma takeWhile_zeros:
  "takeWhile (\<lambda>c. c \<noteq> 0) (xs @ replicate m (0 :: 'a :: zero)) = takeWhile (\<lambda>c. c \<noteq> 0) xs"
proof (cases m)
  case 0
  then show ?thesis by simp
next
  case (Suc k)
  then show ?thesis by (simp add: takeWhile_stop)
qed

lemma trim_padded:
  "takeWhile (\<lambda>c. c \<noteq> 0) (take n (u @ [0 :: 'a :: zero]) @ replicate m 0) =
     takeWhile (\<lambda>c. c \<noteq> 0) (take n u)"
proof (cases "n \<le> length u")
  case True
  then show ?thesis by (simp add: takeWhile_zeros)
next
  case False
  then have "take n (u @ [0]) = u @ [0]" "take n u = u" by simp_all
  then show ?thesis by (simp add: takeWhile_stop)
qed



lemma unpack_scalar_int: "c \<noteq> t_char \<Longrightarrow> unpack_scalar c b = PInt (le_int b)"
  by (cases c) simp_all

lemma pack_scalar_int:
  "c \<noteq> t_char \<Longrightarrow> 0 \<le> n \<Longrightarrow> n < 2 ^ (8 * std_size c) \<Longrightarrow>
     pack_scalar c (PInt n) = Inr (le_bytes (std_size c) n)"
  by (cases c) simp_all

lemma length_fill: "length (take n b @ replicate (n - length b) x) = n"
  by simp

lemma readString_filled:
  assumes "list_all (\<lambda>x. unat x < 128) e"
  shows "t_readString (PStr (take n (e @ [0]) @ replicate (n - length (e @ [0])) 0)) =
           Inr (PUni (takeWhile (\<lambda>c. c \<noteq> 0) (take n (map unat e))))"
proof -
  let ?b = "take n (e @ [0]) @ replicate (n - length (e @ [0])) (0 :: 8 word)"
  have "list_all (\<lambda>x. unat x < 128) (e @ [0])" using assms by simp
  then have "list_all (\<lambda>x. unat x < 128) (take n (e @ [0]))"
    by (auto simp: list_all_iff dest: in_set_takeD)
  then have a: "list_all (\<lambda>x. unat x < 128) ?b"
    by (auto simp: list_all_iff)
  have z: "unat (0 :: 8 word) = 0" by simp
  have "map unat (take n (e @ [0])) = take n (map unat (e @ [0]))"
    by (simp only: take_map)
  then have "map unat ?b = take n (map unat e @ [0]) @ replicate (n - length (e @ [0])) 0"
    by (simp only: map_append map_replicate list.map z)
  then have "takeWhile (\<lambda>c. c \<noteq> 0) (map unat ?b) = takeWhile (\<lambda>c. c \<noteq> 0) (take n (map unat e))"
    by (simp only: trim_padded)
  then show ?thesis
    using utf8_dec_ascii[OF a] by (simp add: utf8_decode_def)
qed

lemma readString_fit:
  assumes "list_all unicode_scalar u" and "fit n u = Some u'"
  shows "t_readString (PStr (take n (utf8_encode u @ [0]) @ replicate (n - length (utf8_encode u @ [0])) 0)) =
           Inr (PUni (takeWhile (\<lambda>c. c \<noteq> 0) u'))"
proof -
  let ?m = "n - length (utf8_encode u')"
  from assms(1) have "list_all (\<lambda>c. c < 1114112) u"
    by (auto simp: list_all_iff unicode_scalar_def)
  from fit_all[OF assms(2) this] have v: "list_all (\<lambda>c. c < 1114112) u'" .
  have "list_all (\<lambda>x. unat x < 128) (replicate ?m (0 :: 8 word))"
    by (simp add: list_all_iff)
  from utf8_dec_ascii[OF this]
  have z: "utf8_dec (replicate ?m 0) 0 0 128 191 = Inr (replicate ?m 0)" by simp
  have "utf8_decode (utf8_encode u' @ replicate ?m 0) = Inr (u' @ replicate ?m 0)"
    unfolding utf8_decode_def utf8_dec_encode[OF v] z by simp
  then show ?thesis
    by (simp only: fit_bytes[OF assms(2)] t_readString.simps sum.case takeWhile_zeros)
qed

lemma popValue_snoc:
  "typeObj_popValue (TypeWriter d r w) (tail @ [x]) =
     (case apply_reader r x of Inl e \<Rightarrow> Inl e | Inr v \<Rightarrow> Inr (v, tail))"
  by (cases "apply_reader r x") simp_all

lemma field_roundtrip:
  assumes "field_spec ty i x = Some r"
  shows "\<exists>a b. typeObj_yieldArgs ty x = Inr a \<and> pack_items [i] a = Inr b \<and>
           (\<forall>tail. typeObj_popValue ty (tail @ rev (unpack_items [i] b)) = Inr (r, tail))"
proof (cases ty)
  case SkipType
  with assms obtain n where "i = Pad n" "r = PNone"
    by (auto simp: field_spec_def split: item.splits)
  with SkipType show ?thesis by simp
next
  case (Sub S)
  with assms show ?thesis by (simp add: field_spec_def)
next
  case (TypeWriter d rd wr)
  show ?thesis
  proof (cases i)
    case (Pad n)
    with assms TypeWriter show ?thesis by (simp add: field_spec_def)
  next
    case (Scalar c)
    with assms TypeWriter have rw: "rd = None" "wr = None"
      by (auto simp: field_spec_def split: if_splits)
    show ?thesis
    proof (cases x)
      case (PInt n)
      with assms TypeWriter Scalar rw have h: "c \<noteq> t_char" "d = PInt 0" "0 \<le> n"
          "n < 2 ^ (8 * std_size c)" "r = PInt n"
        by (auto simp: field_spec_def split: if_splits)
      have y: "typeObj_yieldArgs ty x = Inr [PInt n]"
        using TypeWriter PInt rw h(2) by (simp add: apply_writer_def)
      have p: "pack_items [i] [PInt n] = Inr (le_bytes (std_size c) n)"
        using Scalar h(1,3,4) by (simp add: pack_scalar_int)
      have u: "unpack_items [i] (le_bytes (std_size c) n) = [PInt n]"
        using Scalar h(1,3,4) by (simp add: unpack_scalar_int length_le_bytes le_int_le_bytes)
      have "\<forall>tail. typeObj_popValue ty (tail @ rev (unpack_items [i] (le_bytes (std_size c) n))) = Inr (r, tail)"
        using TypeWriter rw h(5) by (simp add: u apply_reader_def)
      with y p show ?thesis by blast
    next
      case (PStr b)
      with assms TypeWriter Scalar rw have h: "c = t_char" "length b = 1" "r = PStr b"
        by (auto simp: field_spec_def split: if_splits)
      have y: "typeObj_yieldArgs ty x = Inr [PStr b]"
        using TypeWriter PStr rw h(2) by (auto simp: apply_writer_def)
      have p: "pack_items [i] [PStr b] = Inr b"
        using Scalar h(1,2) by simp
      have u: "unpack_items [i] b = [PStr b]"
        using Scalar h(1,2) by simp
      have "\<forall>tail. typeObj_popValue ty (tail @ rev (unpack_items [i] b)) = Inr (r, tail)"
        using TypeWriter rw h(3) by (simp add: u apply_reader_def)
      with y p show ?thesis by blast
    qed (use assms TypeWriter Scalar rw in \<open>simp_all add: field_spec_def\<close>)
  next
    case (Str n)
    show ?thesis
    proof (cases "rd = Some readString \<and> wr = Some writeString")
      case True
      then have rw: "rd = Some readString" "wr = Some writeString" by simp_all
      have "\<exists>e. t_writeString x = Inr (PStr (e @ [0])) \<and>
              t_readString (PStr (take n (e @ [0]) @ replicate (n - length (e @ [0])) 0)) = Inr r"
      proof (cases x)
        case (PUni u)
        with assms TypeWriter Str rw obtain u' where h: "list_all unicode_scalar u"
            "fit n u = Some u'" "r = PUni (takeWhile (\<lambda>c. c \<noteq> 0) u')"
          by (auto simp: field_spec_def split: if_splits)
        have "t_writeString x = Inr (PStr (utf8_encode u @ [0]))"
          using PUni by simp
        with readString_fit[OF h(1,2)] h(3) show ?thesis by blast
      next
        case (PStr b)
        with assms TypeWriter Str rw have h: "list_all (\<lambda>x. unat x < 128) b"
            "r = PUni (takeWhile (\<lambda>c. c \<noteq> 0) (take n (map unat b)))"
          by (auto simp: field_spec_def split: if_splits)
        have "t_writeString x = Inr (PStr (b @ [0]))"
          using PStr h(1) by (simp add: list_all_iff)
        with readString_filled[OF h(1), of n] h(2) show ?thesis by blast
      qed (use assms TypeWriter Str rw in \<open>simp_all add: field_spec_def\<close>)
      then obtain e where e: "t_writeString x = Inr (PStr (e @ [0]))"
          "t_readString (PStr (take n (e @ [0]) @ replicate (n - length (e @ [0])) 0)) = Inr r"
        by blast
      let ?b = "take n (e @ [0]) @ replicate (n - length (e @ [0])) (0 :: 8 word)"
      have y: "typeObj_yieldArgs ty x = Inr [PStr (e @ [0])]"
        using TypeWriter rw e(1) by (simp add: apply_writer_def)
      have p: "pack_items [i] [PStr (e @ [0])] = Inr ?b"
        using Str by simp
      have u: "unpack_items [i] ?b = [PStr ?b]"
        using Str by (simp only: unpack_items.simps take_all[OF eq_imp_le[OF length_fill]])
      have "\<forall>tail. typeObj_popValue ty (tail @ rev (unpack_items [i] ?b)) = Inr (r, tail)"
        using TypeWriter rw e(2)
        by (simp only: u rev.simps append_Nil popValue_snoc apply_reader_def option.case
            reader.case sum.case simp_thms)
      with y p show ?thesis by blast
    next
      case False
      with assms TypeWriter Str have rw: "rd = None" "wr = None"
        by (auto simp: field_spec_def split: if_splits)
      from assms TypeWriter Str rw obtain b where h: "x = PStr b" "d = PStr []"
          "r = PStr (take n b @ replicate (n - length b) 0)"
        by (auto simp: field_spec_def split: if_splits pyval.splits)
      let ?b = "take n b @ replicate (n - length b) (0 :: 8 word)"
      have y: "typeObj_yieldArgs ty x = Inr [PStr b]"
        using TypeWriter rw h(1,2) by (auto simp: apply_writer_def)
      have p: "pack_items [i] [PStr b] = Inr ?b"
        using Str by simp
      have u: "unpack_items [i] ?b = [PStr ?b]"
        using Str by (simp only: unpack_items.simps take_all[OF eq_imp_le[OF length_fill]])
      have "\<forall>tail. typeObj_popValue ty (tail @ rev (unpack_items [i] ?b)) = Inr (r, tail)"
        using TypeWriter rw h(3) by (simp add: u apply_reader_def del: unpack_items.simps)
      with y p show ?thesis by blast
    qed
  qed
qed


lemma py_get_dict: "py_get (PDict d) name = Inr (lookup d name)"
  by simp

lemma roundtrips_Nil: "roundtrips [] [] d []"
  by (simp add: roundtrips_def)

lemma roundtrips_field:
  assumes f: "field_spec ty i (lookup d name) = Some r"
    and rest: "roundtrips ts items d rs"
  shows "roundtrips ((name, ty) # ts) (i # items) d ((name, r) # rs)"
proof -
  from field_roundtrip[OF f] obtain a b where
    a: "typeObj_yieldArgs ty (lookup d name) = Inr a" and b: "pack_items [i] a = Inr b"
    and p: "\<forall>tail. typeObj_popValue ty (tail @ rev (unpack_items [i] b)) = Inr (r, tail)"
    by blast
  from rest obtain args bs where
    y: "types_yieldArgs ts (PDict d) = Inr args" and k: "pack_items items args = Inr bs"
    and q: "\<forall>tail. types_popValue ts (tail @ rev (unpack_items items bs)) = Inr (map snd rs, tail)"
    and n: "map fst rs = map fst ts"
    unfolding roundtrips_def by blast
  have y': "types_yieldArgs ((name, ty) # ts) (PDict d) = Inr (a @ args)"
    using a y by (simp add: py_get_dict)
  have k': "pack_items (i # items) (a @ args) = Inr (b @ bs)"
    using pack_items_append[OF b k] by simp
  have lb: "length b = fmt_size [i]" using b by (rule pack_items_length)
  have u: "unpack_items (i # items) (b @ bs) = unpack_items [i] b @ unpack_items items bs"
    using unpack_items_append[OF lb, of items bs] by simp
  have q': "\<forall>tail. types_popValue ((name, ty) # ts) (tail @ rev (unpack_items (i # items) (b @ bs))) =
      Inr (map snd ((name, r) # rs), tail)"
  proof
    fix tail
    have "typeObj_popValue ty ((tail @ rev (unpack_items items bs)) @ rev (unpack_items [i] b)) =
        Inr (r, tail @ rev (unpack_items items bs))"
      using p by blast
    then show "types_popValue ((name, ty) # ts) (tail @ rev (unpack_items (i # items) (b @ bs))) =
      Inr (map snd ((name, r) # rs), tail)"
      using q by (simp add: u del: unpack_items.simps)
  qed
  show ?thesis
    unfolding roundtrips_def using y' k' q' n by (intro exI[of _ "a @ args"] exI[of _ "b @ bs"]) simp
qed

lemma roundtrips_nested:
  assumes inner: "roundtrips ts' f d' r" and l: "lookup d name = PDict d'"
    and rest: "roundtrips ts items d rs"
  shows "roundtrips ((name, Sub (Structure f ts')) # ts) (f @ items) d ((name, PTuple r) # rs)"
proof -
  from inner obtain a b where
    a: "types_yieldArgs ts' (PDict d') = Inr a" and b: "pack_items f a = Inr b"
    and p: "\<forall>tail. types_popValue ts' (tail @ rev (unpack_items f b)) = Inr (map snd r, tail)"
    and m: "map fst r = map fst ts'"
    unfolding roundtrips_def by blast
  from rest obtain args bs where
    y: "types_yieldArgs ts (PDict d) = Inr args" and k: "pack_items items args = Inr bs"
    and q: "\<forall>tail. types_popValue ts (tail @ rev (unpack_items items bs)) = Inr (map snd rs, tail)"
    and n: "map fst rs = map fst ts"
    unfolding roundtrips_def by blast
  have y': "types_yieldArgs ((name, Sub (Structure f ts')) # ts) (PDict d) = Inr (a @ args)"
    using a y l by (simp add: py_get_dict)
  have k': "pack_items (f @ items) (a @ args) = Inr (b @ bs)"
    using pack_items_append[OF b k] .
  have lb: "length b = fmt_size f" using b by (rule pack_items_length)
  have u: "unpack_items (f @ items) (b @ bs) = unpack_items f b @ unpack_items items bs"
    using unpack_items_append[OF lb] .
  have z: "zip (map fst ts') (map snd r) = r"
    using m by (metis zip_map_fst_snd)
  have q': "\<forall>tail. types_popValue ((name, Sub (Structure f ts')) # ts)
        (tail @ rev (unpack_items (f @ items) (b @ bs))) =
      Inr (map snd ((name, PTuple r) # rs), tail)"
  proof
    fix tail
    have "types_popValue ts' ((tail @ rev (unpack_items items bs)) @ rev (unpack_items f b)) =
        Inr (map snd r, tail @ rev (unpack_items items bs))"
      using p by blast
    then show "types_popValue ((name, Sub (Structure f ts')) # ts)
        (tail @ rev (unpack_items (f @ items) (b @ bs))) =
      Inr (map snd ((name, PTuple r) # rs), tail)"
      using q z by (simp add: u)
  qed
  show ?thesis
    unfolding roundtrips_def using y' k' q' n by (intro exI[of _ "a @ args"] exI[of _ "b @ bs"]) simp
qed

lemma types_roundtrip: "types_spec ts items d = Some r \<Longrightarrow> roundtrips ts items d r"
proof (induction ts items d arbitrary: r rule: types_spec.induct)
  case (1 items d)
  then show ?case by (auto simp: roundtrips_Nil split: if_splits)
next
  case (2 name f ts rest items d)
  from "2.prems" have pf: "\<not> take (length f) items \<noteq> f"
    by (auto split: if_splits)
  from "2.prems" pf obtain d' where l: "lookup d name = PDict d'"
    by (cases "lookup d name") auto
  from "2.prems" pf l obtain r1 where r1: "types_spec ts f d' = Some r1"
    by (cases "types_spec ts f d'") auto
  from "2.prems" pf l r1 obtain rs where rs: "types_spec rest (drop (length f) items) d = Some rs"
      and r: "r = (name, PTuple r1) # rs"
    by (cases "types_spec rest (drop (length f) items) d") auto
  have i1: "roundtrips ts f d' r1" using "2.IH"(1)[OF pf l r1] .
  have i2: "roundtrips rest (drop (length f) items) d rs" using "2.IH"(2)[OF pf l r1 rs] .
  have "items = f @ drop (length f) items"
    using pf by (metis append_take_drop_id)
  with roundtrips_nested[OF i1 l i2] r show ?case by simp
next
  case (3 name rest items d)
  from "3.prems" obtain i items' where it: "items = i # items'"
    by (cases items) auto
  from "3.prems" it obtain x where x: "field_spec SkipType i (lookup d name) = Some x"
    by (cases "field_spec SkipType i (lookup d name)") auto
  from "3.prems" it x obtain rs where rs: "types_spec rest items' d = Some rs"
      and r: "r = (name, x) # rs"
    by (cases "types_spec rest items' d") auto
  have "roundtrips rest items' d rs" using "3.IH"[OF it x rs] .
  from roundtrips_field[OF x this] it r show ?case by simp
next
  case (4 name dv rd wr rest items d)
  from "4.prems" obtain i items' where it: "items = i # items'"
    by (cases items) auto
  from "4.prems" it obtain x where x: "field_spec (TypeWriter dv rd wr) i (lookup d name) = Some x"
    by (cases "field_spec (TypeWriter dv rd wr) i (lookup d name)") auto
  from "4.prems" it x obtain rs where rs: "types_spec rest items' d = Some rs"
      and r: "r = (name, x) # rs"
    by (cases "types_spec rest items' d") auto
  have "roundtrips rest items' d rs" using "4.IH"[OF it x rs] .
  from roundtrips_field[OF x this] it r show ?case by simp
qed


text \<open>
  For a structure that \<open>Structure.__init__\<close> builds, the format lines up with the
  fields, and the specified result is the named tuple of the specified results of its
  field definitions, defined when each of them is.
\<close>

lemma parsed_types_spec:
  "types_spec (map (\<lambda>f. (fst (parseDefinition f), snd (snd (parseDefinition f)))) fs)
      (concat (map (\<lambda>f. fst (snd (parseDefinition f))) fs)) d =
     (if \<forall>f \<in> set fs. def_spec f d \<noteq> None
      then Some (map (\<lambda>f. (f_name f, the (def_spec f d))) fs) else None)"
proof (induction fs)
  case Nil
  then show ?case by simp
next
  case (Cons f fs)
  show ?case
  proof (cases "f_typeDef f")
    case (Struct S)
    obtain fm ts where S: "S = Structure fm ts" by (cases S)
    have p: "parseDefinition f = (f_name f, fm, Sub (Structure fm ts))"
      using Struct S by (simp add: parseDefinition_def)
    show ?thesis
      using Cons.IH Struct S
      by (simp add: p def_spec_def split: pyval.splits option.splits)
  next
    case (Fmt c)
    let ?i = "parseItem c (f_len f)"
    obtain ty where p: "parseDefinition f = (f_name f, [?i], ty)" and ty: "\<forall>S. ty \<noteq> Sub S"
      using Fmt by (cases ?i) (simp_all add: parseDefinition_def Let_def)
    show ?thesis
    proof (cases ty)
      case SkipType
      then show ?thesis using Cons.IH Fmt p
        by (simp add: def_spec_def split: option.splits)
    next
      case (TypeWriter dv rd wr)
      then show ?thesis using Cons.IH Fmt p
        by (simp add: def_spec_def split: option.splits)
    next
      case (Sub S)
      with ty show ?thesis by simp
    qed
  qed
qed

lemma built_roundtrip_spec:
  assumes "Structure_init fs = Inr S"
  shows "roundtrip_spec S (PDict d) =
     (if \<forall>f \<in> set fs. def_spec f d \<noteq> None
      then Some (PTuple (map (\<lambda>f. (f_name f, the (def_spec f d))) fs)) else None)"
proof -
  have n: "\<And>f. fst (parseDefinition f) = f_name f"
    by (simp add: parseDefinition_def Let_def split: typeDef.splits)
  from assms have S: "S = Structure (concat (map (\<lambda>f. fst (snd (parseDefinition f))) fs))
      (map (\<lambda>f. (fst (parseDefinition f), snd (snd (parseDefinition f)))) fs)"
    by (auto simp: Structure_init_def Let_def zip_map_map zip_same_conv_map comp_def
        split: if_splits option.splits)
  show ?thesis
    unfolding S roundtrip_spec_def by (simp add: parsed_types_spec)
qed

text \<open>
  Claim C3, amended. Let \<open>S\<close> be a packed structure and \<open>v\<close> a dictionary for which the
  specified result \<open>roundtrip_spec S v\<close> is defined, that is:
  \<^item> every field of \<open>S\<close> is an integer field (\<open>u8\<close>, \<open>u16\<close>, \<open>u32\<close> or \<open>u64\<close>, of
    length 1, without reader and writer), a character field (\<open>char\<close>, of length 1,
    without reader and writer), a string field (the \<open>n\<close> bytes that a declared length
    other than 1, or the format \<open>'s'\<close>, gives, with \<open>readString\<close> and
    \<open>writeString\<close>), a byte-array field (\<open>n\<close> bytes in the same way, without reader
    and writer), a padding field, or a nested structure of the same kind;
  \<^item> \<open>v\<close> gives an integer within its range to every integer field, a byte string of
    length one to every character field, a byte string to every byte-array field, a
    dictionary of the same kind to every nested structure, and to every string field
    either text whose UTF-8 encoding, cut to the \<open>n\<close> bytes of the field, ends with a
    whole character, or an ASCII byte string.

  Then \<open>write\<close> returns a buffer of the size of \<open>S\<close>, and \<open>read\<close> of that buffer, at
  whatever offset it lies in the data, returns the specified result: integer, character
  and nested fields as \<open>v\<close> gives them, for a string field the characters that fit its
  \<open>n\<close> bytes, trimmed at the first null character, a byte-array field cut or filled
  with null bytes to its \<open>n\<close> bytes (and not trimmed), \<open>None\<close> for a padding field.
\<close>

theorem structure_roundtrip:
  assumes "roundtrip_spec S v = Some r"
  shows "\<exists>bs. Structure_write S v = Inr bs \<and> length bs = size_of S \<and>
           Structure_read S (pre @ bs @ post) (length pre) = Inr r"
proof -
  obtain f ts where S: "S = Structure f ts" by (cases S)
  from assms obtain d where v: "v = PDict d"
    by (cases v) (auto simp: roundtrip_spec_def)
  from assms S v obtain r' where t: "types_spec ts f d = Some r'" and r: "r = PTuple r'"
    by (cases "types_spec ts f d") (auto simp: roundtrip_spec_def)
  from types_roundtrip[OF t] obtain args bs where
    y: "types_yieldArgs ts (PDict d) = Inr args" and k: "pack_items f args = Inr bs"
    and q: "\<forall>tail. types_popValue ts (tail @ rev (unpack_items f bs)) = Inr (map snd r', tail)"
    and n: "map fst r' = map fst ts"
    unfolding roundtrips_def by blast
  have w: "Structure_write S v = Inr bs"
    using S v y k by (simp add: Structure_write_def)
  have l: "length bs = fmt_size f" using k by (rule pack_items_length)
  have u: "unpack_from f (pre @ bs @ post) (length pre) = Inr (unpack_items f bs)"
    using l by (simp add: unpack_from_def)
  have z: "zip (map fst ts) (map snd r') = r'"
    using n by (metis zip_map_fst_snd)
  have "types_popValue ts ([] @ rev (unpack_items f bs)) = Inr (map snd r', [])"
    using q by blast
  then have "Structure_read S (pre @ bs @ post) (length pre) = Inr r"
    using S u z r by (simp add: Structure_read_def)
  with w l S show ?thesis by (simp add: size_of_def)
qed


text \<open>
  Claim C3, as the specification states it, fails.
  \<^item> The structure with the one field \<open>(t.u16, 'foo')\<close> cannot encode the value 65536:
    \<open>write\<close> raises \<open>struct.error\<close>.
  \<^item> The structure with the one field \<open>(t.u8, 'buf', 4)\<close>, a byte array without
    reader, encodes \<open>'ab'\<close> and decodes it as \<open>'ab'\<close> followed by two null bytes: filled
    to the declared length and not trimmed at the first null byte.
  \<^item> The structure with the one string field
    \<open>(t.u8, 'bar', 2, t.readString, t.writeString)\<close> encodes the text of the two code
    points 97 and 233 as the bytes 97 and 195, the encoding of the second code point cut
    in the middle, and \<open>read\<close> raises \<open>UnicodeDecodeError\<close>.
  \<^item> The same structure cannot encode the byte string of the two bytes 195 and 169:
    \<open>writeString\<close> raises \<open>UnicodeDecodeError\<close>, a byte string being decoded as ASCII
    before it is encoded.
  \<^item> The field \<open>(t.u8, 'bar', 1, t.readString, t.writeString)\<close>, a string field declared
    with the length 1, keeps the format of one unsigned byte, and \<open>write\<close> raises
    \<open>struct.error\<close> on the string that \<open>writeString\<close> returns.
\<close>

theorem structure_roundtrip_counterexample:
  "Structure_init
     [\<lparr>f_typeDef = Fmt (Ch t_u16), f_name = ''foo'', f_len = 1, f_reader = None, f_writer = None\<rparr>] =
     Inr (Structure [Scalar t_u16] [(''foo'', TypeWriter (PInt 0) None None)]) \<and>
   Structure_write (Structure [Scalar t_u16] [(''foo'', TypeWriter (PInt 0) None None)])
     (PDict [(''foo'', PInt 65536)]) = Inl StructError \<and>
   Structure_init
     [\<lparr>f_typeDef = Fmt (Ch t_u8), f_name = ''buf'', f_len = 4, f_reader = None, f_writer = None\<rparr>] =
     Inr (Structure [Str 4] [(''buf'', TypeWriter (PStr []) None None)]) \<and>
   Structure_write (Structure [Str 4] [(''buf'', TypeWriter (PStr []) None None)])
     (PDict [(''buf'', PStr [97, 98])]) = Inr [97, 98, 0, 0] \<and>
   Structure_read (Structure [Str 4] [(''buf'', TypeWriter (PStr []) None None)])
     [97, 98, 0, 0] 0 = Inr (PTuple [(''buf'', PStr [97, 98, 0, 0])]) \<and>
   PStr [97, 98, 0, 0] \<noteq> PStr [97, 98] \<and>
   Structure_init
     [\<lparr>f_typeDef = Fmt (Ch t_u8), f_name = ''bar'', f_len = 2, f_reader = Some readString,
       f_writer = Some writeString\<rparr>] =
     Inr (Structure [Str 2] [(''bar'', TypeWriter (PStr []) (Some readString) (Some writeString))]) \<and>
   Structure_write
     (Structure [Str 2] [(''bar'', TypeWriter (PStr []) (Some readString) (Some writeString))])
     (PDict [(''bar'', PUni [97, 233])]) = Inr [97, 195] \<and>
   Structure_read
     (Structure [Str 2] [(''bar'', TypeWriter (PStr []) (Some readString) (Some writeString))])
     [97, 195] 0 = Inl UnicodeDecodeError \<and>
   Structure_write
     (Structure [Str 2] [(''bar'', TypeWriter (PStr []) (Some readString) (Some writeString))])
     (PDict [(''bar'', PStr [195, 169])]) = Inl UnicodeDecodeError \<and>
   Structure_init
     [\<lparr>f_typeDef = Fmt (Ch t_u8), f_name = ''bar'', f_len = 1, f_reader = Some readString,
       f_writer = Some writeString\<rparr>] =
     Inr (Structure [Scalar t_u8] [(''bar'', TypeWriter (PInt 0) (Some readString) (Some writeString))]) \<and>
   Structure_write
     (Structure [Scalar t_u8] [(''bar'', TypeWriter (PInt 0) (Some readString) (Some writeString))])
     (PDict [(''bar'', PUni [97])]) = Inl StructError"
  by code_simp

theorem structure_roundtrip_witness:
  "Structure_init
     [\<lparr>f_typeDef = Fmt (Ch t_u16), f_name = ''foo'', f_len = 1, f_reader = None, f_writer = None\<rparr>,
      \<lparr>f_typeDef = Fmt (Ch t_u8), f_name = ''bar'', f_len = 8, f_reader = Some readString,
        f_writer = Some writeString\<rparr>,
      \<lparr>f_typeDef = Struct (Structure [Scalar t_char] [(''char1'', TypeWriter (PStr [0]) None None)]),
        f_name = ''foobar'', f_len = 1, f_reader = None, f_writer = None\<rparr>] =
     Inr (Structure [Scalar t_u16, Str 8, Scalar t_char]
            [(''foo'', TypeWriter (PInt 0) None None),
             (''bar'', TypeWriter (PStr []) (Some readString) (Some writeString)),
             (''foobar'', Sub (Structure [Scalar t_char]
                                 [(''char1'', TypeWriter (PStr [0]) None None)]))]) \<and>
   Structure_write
     (Structure [Scalar t_u16, Str 8, Scalar t_char]
            [(''foo'', TypeWriter (PInt 0) None None),
             (''bar'', TypeWriter (PStr []) (Some readString) (Some writeString)),
             (''foobar'', Sub (Structure [Scalar t_char]
                                 [(''char1'', TypeWriter (PStr [0]) None None)]))])
     (PDict [(''foo'', PInt 8), (''bar'', PUni [104, 233, 0, 97]),
             (''foobar'', PDict [(''char1'', PStr [97])])]) =
     Inr [8, 0, 104, 195, 169, 0, 97, 0, 0, 0, 97] \<and>
   Structure_read
     (Structure [Scalar t_u16, Str 8, Scalar t_char]
            [(''foo'', TypeWriter (PInt 0) None None),
             (''bar'', TypeWriter (PStr []) (Some readString) (Some writeString)),
             (''foobar'', Sub (Structure [Scalar t_char]
                                 [(''char1'', TypeWriter (PStr [0]) None None)]))])
     [8, 0, 104, 195, 169, 0, 97, 0, 0, 0, 97] 0 =
     Inr (PTuple [(''foo'', PInt 8), (''bar'', PUni [104, 233]),
                  (''foobar'', PTuple [(''char1'', PStr [97])])])"
proof -
  let ?S1 = "Structure [Scalar t_char] [(''char1'', TypeWriter (PStr [0]) None None)]"
  let ?S = "Structure [Scalar t_u16, Str 8, Scalar t_char]
            [(''foo'', TypeWriter (PInt 0) None None),
             (''bar'', TypeWriter (PStr []) (Some readString) (Some writeString)),
             (''foobar'', Sub ?S1)]"
  let ?v = "PDict [(''foo'', PInt 8), (''bar'', PUni [104, 233, 0, 97]),
             (''foobar'', PDict [(''char1'', PStr [97])])]"
  let ?r = "PTuple [(''foo'', PInt 8), (''bar'', PUni [104, 233]),
                  (''foobar'', PTuple [(''char1'', PStr [97])])]"
  have i: "Structure_init
     [\<lparr>f_typeDef = Fmt (Ch t_u16), f_name = ''foo'', f_len = 1, f_reader = None, f_writer = None\<rparr>,
      \<lparr>f_typeDef = Fmt (Ch t_u8), f_name = ''bar'', f_len = 8, f_reader = Some readString,
        f_writer = Some writeString\<rparr>,
      \<lparr>f_typeDef = Struct ?S1, f_name = ''foobar'', f_len = 1, f_reader = None, f_writer = None\<rparr>] =
     Inr ?S"
    by code_simp
  have h: "roundtrip_spec ?S ?v = Some ?r"
    by (simp add: roundtrip_spec_def field_spec_def unicode_scalar_def Let_def lookup_def)
  have w: "Structure_write ?S ?v = Inr [8, 0, 104, 195, 169, 0, 97, 0, 0, 0, 97]" by code_simp
  from structure_roundtrip [OF h, of "[]" "[]"] obtain bs where
    b: "Structure_write ?S ?v = Inr bs" and r: "Structure_read ?S ([] @ bs @ []) (length ([] :: bytes)) = Inr ?r"
    by blast
  from b w have "bs = [8, 0, 104, 195, 169, 0, 97, 0, 0, 0, 97]" by simp
  with r have "Structure_read ?S [8, 0, 104, 195, 169, 0, 97, 0, 0, 0, 97] 0 = Inr ?r" by simp
  with i w show ?thesis by (intro conjI)
qed

end
